theory Spec2Isabelle
  imports Main "HOL-Library.Sublist"
begin

section \<open>Site monitor: the discovery ledger of \<^verbatim>\<open>monitor.py\<close>\<close>

text \<open>
  A shallow embedding of class \<^verbatim>\<open>SiteMonitor\<close>. A Python \<^verbatim>\<open>str\<close> is a
  \<^typ>\<open>string\<close>: a list of code points, here the code points below 256, on which
  \<^verbatim>\<open>str.lower\<close>, \<^verbatim>\<open>str.isspace\<close> and the regular-expression class
  \<^verbatim>\<open>\s\<close> are the functions below.
\<close>

subsection \<open>Characters and strings of Python\<close>

definition code_point :: "char \<Rightarrow> nat" where
  "code_point c = of_char c"

text \<open>\<^verbatim>\<open>str.isspace\<close>, which is also what \<^verbatim>\<open>\s\<close> matches in a \<^verbatim>\<open>str\<close> pattern.\<close>

definition is_space :: "char \<Rightarrow> bool" where
  "is_space c =
     (let n = code_point c
      in (9 \<le> n \<and> n \<le> 13) \<or> (28 \<le> n \<and> n \<le> 32) \<or> n = 133 \<or> n = 160)"

text \<open>The class \<^verbatim>\<open>[a-z0-9]\<close>.\<close>

definition is_lower_alnum :: "char \<Rightarrow> bool" where
  "is_lower_alnum c =
     (let n = code_point c
      in (97 \<le> n \<and> n \<le> 122) \<or> (48 \<le> n \<and> n \<le> 57))"

text \<open>\<^verbatim>\<open>str.lower\<close> on one code point below 256.\<close>

definition lower_char :: "char \<Rightarrow> char" where
  "lower_char c =
     (let n = code_point c
      in if (65 \<le> n \<and> n \<le> 90) \<or> (192 \<le> n \<and> n \<le> 222 \<and> n \<noteq> 215)
         then char_of (n + 32) else c)"

definition lower :: "string \<Rightarrow> string" where
  "lower s = map lower_char s"

text \<open>\<^verbatim>\<open>str.strip()\<close>: whitespace removed at both ends.\<close>

definition strip :: "string \<Rightarrow> string" where
  "strip s = rev (dropWhile is_space (rev (dropWhile is_space s)))"

text \<open>\<^verbatim>\<open>sep.join(xs)\<close>.\<close>

fun join :: "string \<Rightarrow> string list \<Rightarrow> string" where
  "join sep [] = []"
| "join sep [x] = x"
| "join sep (x # y # ys) = x @ sep @ join sep (y # ys)"

text \<open>\<^verbatim>\<open>a in b\<close> on strings: \<open>a\<close> occurs in \<open>b\<close> as a contiguous substring.\<close>

fun str_in :: "string \<Rightarrow> string \<Rightarrow> bool" where
  "str_in a [] = (a = [])"
| "str_in a (c # cs) = (prefix a (c # cs) \<or> str_in a cs)"

subsection \<open>\<^verbatim>\<open>_normalize_text\<close>\<close>

definition TEXT_LIMIT :: nat where
  "TEXT_LIMIT = 100000"

text \<open>\<^verbatim>\<open>re.sub(r'[^a-z0-9\s]', ' ', text)\<close>\<close>

definition sub_non_alnum :: "string \<Rightarrow> string" where
  "sub_non_alnum s = map (\<lambda>c. if is_lower_alnum c \<or> is_space c then c else CHR '' '') s"

text \<open>
  \<^verbatim>\<open>re.sub(r'\s+', ' ', text)\<close>: every maximal run of whitespace becomes one space.
  The flag says that the character before was whitespace, so that the run has its space already.
\<close>

fun sub_spaces_from :: "bool \<Rightarrow> string \<Rightarrow> string" where
  "sub_spaces_from in_run [] = []"
| "sub_spaces_from in_run (c # cs) =
     (if is_space c
      then (if in_run then sub_spaces_from True cs else CHR '' '' # sub_spaces_from True cs)
      else c # sub_spaces_from False cs)"

definition sub_spaces :: "string \<Rightarrow> string" where
  "sub_spaces s = sub_spaces_from False s"

definition normalize_text :: "string \<Rightarrow> string" where
  "normalize_text text =
     (if text = [] then []
      else let text = take TEXT_LIMIT text;
               text = lower text;
               normalized = sub_non_alnum text;
               normalized = strip (sub_spaces normalized)
           in normalized)"

text \<open>
  The reference definition, from the words of the specification: truncate, lowercase,
  replace every character outside \<^verbatim>\<open>[a-z0-9]\<close> with a space, collapse consecutive
  whitespace to single spaces, trim both ends.
\<close>


text \<open>
  The same, with the collapse of whitespace written on its own: a whitespace character
  followed by another one is dropped, and the last one of a run becomes a space.
\<close>

fun collapse_whitespace :: "string \<Rightarrow> string" where
  "collapse_whitespace [] = []"
| "collapse_whitespace [c] = [if is_space c then CHR '' '' else c]"
| "collapse_whitespace (c # d # cs) =
     (if is_space c \<and> is_space d then collapse_whitespace (d # cs)
      else (if is_space c then CHR '' '' else c) # collapse_whitespace (d # cs))"

definition normalize_reference :: "string \<Rightarrow> string" where
  "normalize_reference s =
     strip (collapse_whitespace (map (\<lambda>c. if is_lower_alnum c then c else CHR '' '')
       (map lower_char (take 100000 s))))"

subsection \<open>The parsed page\<close>

text \<open>
  \<^verbatim>\<open>BeautifulSoup(html_content, 'html.parser')\<close> is a library call. A \<open>soup\<close> holds
  what the monitor asks of the parsed page: each field is the answer to one query of the
  source, in document order. An attribute read with \<^verbatim>\<open>.get\<close> is \<open>None\<close> when absent.
\<close>

record anchor =
  a_text :: string
  a_title :: "string option"
  a_href :: "string option"

record heading =
  h_name :: string
  h_text :: string

text \<open>
  A product container (a \<^verbatim>\<open>div\<close>, \<^verbatim>\<open>article\<close> or \<^verbatim>\<open>section\<close> whose class
  contains "product"): its text, the string found by the price search if any
  (\<^verbatim>\<open>str(price_elem)\<close>), and the \<^verbatim>\<open>href\<close> of its first anchor if it has an anchor.
\<close>

record container =
  c_text :: string
  c_price :: "string option"
  c_link :: "string option option"

record soup =
  page_text :: string
  title_string :: "string option"
  metas :: "(string option \<times> string option) list"
  imgs :: "(string option \<times> string option) list"
  anchors :: "anchor list"
  data_product_names :: "string list"
  data_titles :: "string list"
  inputs :: "(string option \<times> string option) list"
  headings :: "heading list"
  product_containers :: "container list"

text \<open>Truth value of an optional string: \<open>None\<close> and the empty string are false.\<close>

fun truthy :: "string option \<Rightarrow> bool" where
  "truthy None = False"
| "truthy (Some s) = (s \<noteq> [])"

text \<open>The strings one element adds when the source appends an attribute only if it is true.\<close>

definition if_true :: "string option \<Rightarrow> string list" where
  "if_true a = (case a of None \<Rightarrow> [] | Some s \<Rightarrow> if s \<noteq> [] then [s] else [])"

definition collect_searchable_content :: "soup \<Rightarrow> string list" where
  "collect_searchable_content sp =
     [page_text sp]
     @ if_true (title_string sp)
     @ concat (map (\<lambda>(name, content).
          if name \<in> {Some ''description'', Some ''keywords''} then if_true content else [])
          (metas sp))
     @ concat (map (\<lambda>(alt, title). if_true alt @ if_true title) (imgs sp))
     @ concat (map (\<lambda>l. if_true (a_title l) @ if_true (a_href l)) (anchors sp))
     @ data_product_names sp
     @ data_titles sp
     @ concat (map (\<lambda>(placeholder, val). if_true placeholder @ if_true val) (inputs sp))"

subsection \<open>Product details\<close>

text \<open>The exceptions of the source that the model has: a missing key, and a bad value.\<close>

datatype error = KeyError | ValueError

definition PRODUCT_TEXT_LIMIT :: nat where
  "PRODUCT_TEXT_LIMIT = 200"

definition NOTIFICATION_TEXT_LIMIT :: nat where
  "NOTIFICATION_TEXT_LIMIT = 150"

text \<open>One dictionary of \<^verbatim>\<open>product_info\<close>; a key the source leaves out is \<open>None\<close>.\<close>

record info =
  i_type :: string
  i_text :: string
  i_url :: "string option"
  i_full_url :: "string option"
  i_tag :: "string option"
  i_price :: "string option"
  i_search_term :: string
  i_found_at :: string

text \<open>The test of links and headings: the term occurs in the text, raw or normalized.\<close>

definition term_in_text :: "string \<Rightarrow> string \<Rightarrow> bool" where
  "term_in_text search_text text =
     (str_in (lower search_text) (lower text) \<or>
      str_in (normalize_text search_text) (normalize_text text))"

text \<open>
  \<^verbatim>\<open>urljoin(url, href) if href else None\<close>. The library function
  \<^verbatim>\<open>urllib.parse.urljoin\<close> raises \<^verbatim>\<open>ValueError\<close> on a malformed reference, and
  nothing in \<^verbatim>\<open>_extract_product_details\<close> catches it.
\<close>

definition full_url_of :: "(string \<Rightarrow> string \<Rightarrow> error + string) \<Rightarrow> string \<Rightarrow> string option
    \<Rightarrow> error + string option" where
  "full_url_of urljoin url href =
     (case href of
        None \<Rightarrow> Inr None
      | Some h \<Rightarrow>
          if h = [] then Inr None
          else (case urljoin url h of Inl e \<Rightarrow> Inl e | Inr full_url \<Rightarrow> Inr (Some full_url)))"

definition link_info :: "(string \<Rightarrow> string \<Rightarrow> error + string) \<Rightarrow> string \<Rightarrow> string \<Rightarrow> anchor
    \<Rightarrow> error + info" where
  "link_info urljoin url search_text l =
     (case full_url_of urljoin url (a_href l) of
        Inl e \<Rightarrow> Inl e
      | Inr full_url \<Rightarrow>
          Inr \<lparr>i_type = ''link'', i_text = strip (a_text l), i_url = a_href l,
               i_full_url = full_url,
               i_tag = None, i_price = None, i_search_term = search_text, i_found_at = url\<rparr>)"

definition heading_info :: "string \<Rightarrow> string \<Rightarrow> heading \<Rightarrow> info" where
  "heading_info url search_text h =
     \<lparr>i_type = ''heading'', i_text = strip (h_text h), i_url = None, i_full_url = None,
      i_tag = Some (h_name h), i_price = None, i_search_term = search_text, i_found_at = url\<rparr>"

definition container_info :: "string \<Rightarrow> string \<Rightarrow> container \<Rightarrow> info" where
  "container_info url search_text c =
     \<lparr>i_type = ''product_container'',
      i_text = (if length (c_text c) > PRODUCT_TEXT_LIMIT
                then take PRODUCT_TEXT_LIMIT (strip (c_text c)) @ ''...''
                else strip (c_text c)),
      i_url = (case c_link c of None \<Rightarrow> None | Some href \<Rightarrow> href),
      i_full_url = None, i_tag = None,
      i_price = (case c_price c of None \<Rightarrow> Some ''Price not found''
                 | Some p \<Rightarrow> if p \<noteq> [] then Some (strip p) else Some ''Price not found''),
      i_search_term = search_text, i_found_at = url\<rparr>"

text \<open>
  The three searches for one term; each loop stops at its first match (\<^verbatim>\<open>break\<close>),
  which is \<^const>\<open>find\<close>. The search in the links comes first, and it is the one that
  can raise.
\<close>

definition link_details :: "(string \<Rightarrow> string \<Rightarrow> error + string) \<Rightarrow> soup \<Rightarrow> string \<Rightarrow> string
    \<Rightarrow> error + info list" where
  "link_details urljoin sp url search_text =
     (case find (\<lambda>l. term_in_text search_text (strip (a_text l))) (anchors sp) of
        None \<Rightarrow> Inr []
      | Some l \<Rightarrow>
          (case link_info urljoin url search_text l of Inl e \<Rightarrow> Inl e | Inr i \<Rightarrow> Inr [i]))"

definition details_of_term :: "(string \<Rightarrow> string \<Rightarrow> error + string) \<Rightarrow> soup \<Rightarrow> string \<Rightarrow> string
    \<Rightarrow> error + info list" where
  "details_of_term urljoin sp url search_text =
     (case link_details urljoin sp url search_text of
        Inl e \<Rightarrow> Inl e
      | Inr links \<Rightarrow>
          Inr (links
               @ (case find (\<lambda>h. term_in_text search_text (strip (h_text h))) (headings sp) of
                    None \<Rightarrow> [] | Some h \<Rightarrow> [heading_info url search_text h])
               @ (case find (\<lambda>c. str_in (normalize_text search_text) (normalize_text (c_text c)))
                         (product_containers sp) of
                    None \<Rightarrow> [] | Some c \<Rightarrow> [container_info url search_text c])))"

text \<open>The loop over the found terms; an exception ends it and leaves the function.\<close>

fun extract_product_details :: "(string \<Rightarrow> string \<Rightarrow> error + string) \<Rightarrow> soup \<Rightarrow> string list \<Rightarrow> string
    \<Rightarrow> error + info list" where
  "extract_product_details urljoin sp [] url = Inr []"
| "extract_product_details urljoin sp (search_text # rest) url =
     (case details_of_term urljoin sp url search_text of
        Inl e \<Rightarrow> Inl e
      | Inr infos \<Rightarrow>
          (case extract_product_details urljoin sp rest url of
             Inl e \<Rightarrow> Inl e
           | Inr product_info \<Rightarrow> Inr (infos @ product_info)))"

subsection \<open>The monitor and the world around it\<close>

type_synonym timestamp = nat

text \<open>
  The history is not a field of the source: it records, in order, every write of
  \<^verbatim>\<open>found_items\<close> and every call of \<^verbatim>\<open>send_pushover_notification\<close> for a
  discovery (the source logs both), so that properties of the sequence of events can be
  stated. No operation reads it.
\<close>

datatype event =
  Committed string string timestamp
| Dispatched string string bool

record monitor =
  urls :: "string list"
  search_texts :: "string list"
  notification_title :: string
  auto_stop_on_found :: bool
  found_items :: "string \<rightharpoonup> (string \<rightharpoonup> timestamp option)"
  notification_sent :: "string \<rightharpoonup> (string \<rightharpoonup> bool)"
  history :: "event list"

text \<open>
  What \<^verbatim>\<open>requests.get\<close> followed by \<^verbatim>\<open>raise_for_status\<close> gives: a response
  (status code, \<^verbatim>\<open>response.text\<close>, \<^verbatim>\<open>len(response.content)\<close>) or an exception.
\<close>

datatype http_result =
  Response nat string nat
| Timeout
| ConnectionError
| OtherError

datatype post_result = Status nat | PostError

text \<open>
  The world during one check cycle: the answer of the network to the attempt number
  \<open>n\<close> at a URL, the library functions, the clock read when a pair is committed, and
  the answer of the Pushover service to a message and title.
\<close>

record world =
  http_get :: "string \<Rightarrow> nat \<Rightarrow> http_result"
  parse_html :: "string \<Rightarrow> soup"
  urljoin :: "string \<Rightarrow> string \<Rightarrow> error + string"
  now :: "string \<Rightarrow> string \<Rightarrow> timestamp"
  pushover_post :: "string \<Rightarrow> string \<Rightarrow> post_result"
  strftime :: "timestamp \<Rightarrow> string"

text \<open>
  Lines 85 to 92 of \<^verbatim>\<open>__init__\<close>, from the URLs and search terms that the
  constructor has read and validated.
\<close>

definition init_monitor :: "string list \<Rightarrow> string list \<Rightarrow> string \<Rightarrow> bool \<Rightarrow> monitor" where
  "init_monitor us ts title auto =
     \<lparr>urls = us, search_texts = ts, notification_title = title, auto_stop_on_found = auto,
      found_items = fold (\<lambda>url m. m(url \<mapsto> fold (\<lambda>t d. d(t \<mapsto> None)) ts Map.empty)) us Map.empty,
      notification_sent = fold (\<lambda>url m. m(url \<mapsto> fold (\<lambda>t d. d(t \<mapsto> False)) ts Map.empty)) us Map.empty,
      history = []\<rparr>"

subsection \<open>\<^verbatim>\<open>send_pushover_notification\<close> and \<^verbatim>\<open>fetch_page\<close>\<close>

definition send_pushover_notification :: "world \<Rightarrow> monitor \<Rightarrow> string \<Rightarrow> string \<Rightarrow> bool" where
  "send_pushover_notification w st message title =
     (case pushover_post w message (if title \<noteq> [] then title else notification_title st) of
        Status code \<Rightarrow> code = 200
      | PostError \<Rightarrow> False)"

definition MAX_CONTENT_SIZE :: nat where
  "MAX_CONTENT_SIZE = 1024 * 1024 * 20"

definition MAX_RETRIES :: nat where
  "MAX_RETRIES = 3"

text \<open>
  The retry loop of \<^verbatim>\<open>fetch_page\<close>, at attempt number \<open>attempt\<close> with \<open>left\<close>
  attempts left. The waiting between attempts has no effect on the result.
\<close>

fun fetch_attempts :: "world \<Rightarrow> string \<Rightarrow> nat \<Rightarrow> nat \<Rightarrow> string option" where
  "fetch_attempts w url attempt 0 = None"
| "fetch_attempts w url attempt (Suc left) =
     (case http_get w url attempt of
        Response status text content_length \<Rightarrow>
          if 400 \<le> status \<and> status < 600
          then (if status \<ge> 500 then fetch_attempts w url (attempt + 1) left else None)
          else if content_length > MAX_CONTENT_SIZE
               then Some (take (MAX_CONTENT_SIZE div 2) text)
               else Some text
      | Timeout \<Rightarrow> fetch_attempts w url (attempt + 1) left
      | ConnectionError \<Rightarrow> fetch_attempts w url (attempt + 1) left
      | OtherError \<Rightarrow> None)"

definition fetch_page :: "world \<Rightarrow> string \<Rightarrow> string option" where
  "fetch_page w url = fetch_attempts w url 0 MAX_RETRIES"

subsection \<open>\<^verbatim>\<open>check_for_patterns\<close>\<close>

text \<open>\<^verbatim>\<open>d.get(search_text)\<close> is true: the key is there and holds a time.\<close>

definition is_found :: "(string \<rightharpoonup> timestamp option) \<Rightarrow> string \<Rightarrow> bool" where
  "is_found d search_text = (case d search_text of Some (Some ts) \<Rightarrow> True | _ \<Rightarrow> False)"

text \<open>
  The second locked block of the loop (lines 412 to 416), the commit of a discovery: the
  write is guarded by the check that the pair is not found yet. The result says whether
  the write happened.
\<close>

definition commit_found :: "monitor \<Rightarrow> string \<Rightarrow> string \<Rightarrow> timestamp \<Rightarrow> error + (monitor \<times> bool)" where
  "commit_found st url search_text ts =
     (case found_items st url of
        None \<Rightarrow> Inl KeyError
      | Some d \<Rightarrow>
          if \<not> is_found d search_text
          then Inr (st\<lparr>found_items := (found_items st)(url \<mapsto> d(search_text \<mapsto> Some ts)),
                      history := history st @ [Committed url search_text ts]\<rparr>, True)
          else Inr (st, False))"

text \<open>
  The loop over the search terms (lines 403 to 416). An exception leaves the loop with
  the state as it is then.
\<close>

fun match_terms :: "world \<Rightarrow> string \<Rightarrow> string \<Rightarrow> string list \<Rightarrow> monitor \<Rightarrow> string list
    \<Rightarrow> monitor \<times> (error + string list)" where
  "match_terms w url normalized_content [] st found_texts = (st, Inr found_texts)"
| "match_terms w url normalized_content (search_text # rest) st found_texts =
     (case found_items st url of
        None \<Rightarrow> (st, Inl KeyError)
      | Some d \<Rightarrow>
          if is_found d search_text
          then match_terms w url normalized_content rest st found_texts
          else if str_in (normalize_text search_text) normalized_content
          then (case commit_found st url search_text (now w url search_text) of
                  Inl e \<Rightarrow> (st, Inl e)
                | Inr (st', committed) \<Rightarrow>
                    match_terms w url normalized_content rest st'
                      (if committed then found_texts @ [search_text] else found_texts))
          else match_terms w url normalized_content rest st found_texts)"

definition normalized_page :: "soup \<Rightarrow> string" where
  "normalized_page sp =
     normalize_text (join '' '' (filter (\<lambda>content. content \<noteq> []) (collect_searchable_content sp)))"

text \<open>\<^verbatim>\<open>specific_search_texts or self.search_texts\<close>\<close>

definition search_texts_to_check :: "monitor \<Rightarrow> string list option \<Rightarrow> string list" where
  "search_texts_to_check st specific_search_texts =
     (case specific_search_texts of
        None \<Rightarrow> search_texts st
      | Some xs \<Rightarrow> if xs \<noteq> [] then xs else search_texts st)"

definition check_for_patterns :: "world \<Rightarrow> monitor \<Rightarrow> string option \<Rightarrow> string \<Rightarrow> string list option
    \<Rightarrow> monitor \<times> (error + bool \<times> info list option)" where
  "check_for_patterns w st html_content url specific_search_texts =
     (case html_content of
        None \<Rightarrow> (st, Inr (False, None))
      | Some html \<Rightarrow>
          if html = [] then (st, Inr (False, None))
          else
            let sp = parse_html w html;
                normalized_content = normalized_page sp;
                search_texts_to_check = search_texts_to_check st specific_search_texts
            in case match_terms w url normalized_content search_texts_to_check st [] of
                 (st', Inl e) \<Rightarrow> (st', Inl e)
               | (st', Inr found_texts) \<Rightarrow>
                   if found_texts \<noteq> []
                   then (case extract_product_details (urljoin w) sp found_texts url of
                           Inl e \<Rightarrow> (st', Inl e)
                         | Inr product_info \<Rightarrow> (st', Inr (True, Some product_info)))
                   else (st', Inr (False, None)))"

text \<open>
  What \<^verbatim>\<open>check_for_patterns\<close> does once the loop over the terms has ended with the
  newly found terms: it returns, or the exception of the extraction of details escapes.
\<close>

definition report_of :: "world \<Rightarrow> soup \<Rightarrow> string list \<Rightarrow> string \<Rightarrow> error + bool \<times> info list option" where
  "report_of w sp found_texts url =
     (if found_texts \<noteq> []
      then (case extract_product_details (urljoin w) sp found_texts url of
              Inl e \<Rightarrow> Inl e
            | Inr product_info \<Rightarrow> Inr (True, Some product_info))
      else Inr (False, None))"

definition check_single_url :: "world \<Rightarrow> monitor \<Rightarrow> string \<Rightarrow> monitor \<times> (error + info list)" where
  "check_single_url w st url =
     (let html_content = fetch_page w url
      in if \<not> truthy html_content then (st, Inr [])
         else case check_for_patterns w st html_content url None of
                (st', Inl e) \<Rightarrow> (st', Inl e)
              | (st', Inr (found, product_info)) \<Rightarrow>
                  (case product_info of
                     None \<Rightarrow> (st', Inr [])
                   | Some infos \<Rightarrow> if found \<and> infos \<noteq> [] then (st', Inr infos) else (st', Inr [])))"

subsection \<open>\<^verbatim>\<open>run_check\<close>\<close>

text \<open>
  The worker tasks of one cycle, one for each URL in the order of submission. The tasks
  write \<^verbatim>\<open>found_items\<close> only and the loop over the completed futures writes
  \<^verbatim>\<open>notification_sent\<close> only, each under the lock, so the cycle is modelled as the
  tasks one after the other and then the loop over their results.
\<close>

fun run_workers :: "world \<Rightarrow> monitor \<Rightarrow> string list \<Rightarrow> monitor \<times> (string \<times> (error + info list)) list" where
  "run_workers w st [] = (st, [])"
| "run_workers w st (url # rest) =
     (case check_single_url w st url of
        (st1, r) \<Rightarrow> (case run_workers w st1 rest of (st2, rs) \<Rightarrow> (st2, (url, r) # rs)))"

definition newline :: string where
  "newline = [CHR 0x0A]"

definition quote :: string where
  "quote = [CHR 0x27]"

definition notification_message :: "info \<Rightarrow> string" where
  "notification_message i =
     quote @ i_search_term i @ quote @ '' FOUND!'' @ newline @ newline
     @ ''Site: '' @ i_found_at i @ newline @ newline
     @ ''Type: '' @ i_type i @ newline
     @ ''Text: '' @ take NOTIFICATION_TEXT_LIMIT (i_text i)
     @ (if length (i_text i) > NOTIFICATION_TEXT_LIMIT then ''...'' else [])
     @ newline
     @ (case i_full_url i of
          None \<Rightarrow> []
        | Some full_url \<Rightarrow> if full_url \<noteq> [] then ''Link: '' @ full_url @ newline else [])
     @ (case i_price i of
          None \<Rightarrow> []
        | Some price \<Rightarrow>
            if price \<noteq> [] \<and> price \<noteq> ''Price not found''
            then ''Price: '' @ price @ newline else [])
     @ newline @ ''Check immediately: '' @ i_found_at i"

text \<open>
  The body of the loop over \<^verbatim>\<open>product_info\<close> (lines 464 to 492) for one record:
  the flag is tested and raised under the lock, the notification is sent, and the flag is
  lowered again if the dispatch failed.
\<close>

definition notify_info :: "world \<Rightarrow> monitor \<Rightarrow> info \<Rightarrow> error + monitor" where
  "notify_info w st i =
     (let search_term = i_search_term i; found_at = i_found_at i
      in case notification_sent st found_at of
           None \<Rightarrow> Inl KeyError
         | Some flags \<Rightarrow>
             (case flags search_term of
                None \<Rightarrow> Inl KeyError
              | Some True \<Rightarrow> Inr st
              | Some False \<Rightarrow>
                  let st1 = st\<lparr>notification_sent :=
                               (notification_sent st)(found_at \<mapsto> flags(search_term \<mapsto> True))\<rparr>;
                      success = send_pushover_notification w st1 (notification_message i)
                                  (''Found: '' @ search_term);
                      st2 = st1\<lparr>history := history st1 @ [Dispatched found_at search_term success]\<rparr>
                  in if \<not> success
                     then Inr (st2\<lparr>notification_sent :=
                                 (notification_sent st2)(found_at \<mapsto> flags(search_term \<mapsto> False))\<rparr>)
                     else Inr st2))"

text \<open>An exception leaves the loop; \<^verbatim>\<open>run_check\<close> catches and logs it (line 494).\<close>

fun notify_infos :: "world \<Rightarrow> monitor \<Rightarrow> info list \<Rightarrow> monitor" where
  "notify_infos w st [] = st"
| "notify_infos w st (i # rest) =
     (case notify_info w st i of
        Inl e \<Rightarrow> st
      | Inr st' \<Rightarrow> notify_infos w st' rest)"

text \<open>
  The loop over the completed futures. A future that raised is logged and passed over.
\<close>

fun process_results :: "world \<Rightarrow> monitor \<Rightarrow> bool \<Rightarrow> (string \<times> (error + info list)) list \<Rightarrow> monitor \<times> bool" where
  "process_results w st any_new_found [] = (st, any_new_found)"
| "process_results w st any_new_found ((url, r) # rest) =
     (case r of
        Inl e \<Rightarrow> process_results w st any_new_found rest
      | Inr product_info \<Rightarrow>
          if product_info \<noteq> []
          then process_results w (notify_infos w st product_info) True rest
          else process_results w st any_new_found rest)"

text \<open>
  \<^verbatim>\<open>ThreadPoolExecutor(max_workers=0)\<close> raises \<^verbatim>\<open>ValueError\<close>: that is
  \<^verbatim>\<open>run_check\<close> without a URL.
\<close>

definition run_check :: "world \<Rightarrow> monitor \<Rightarrow> monitor \<times> (error + bool)" where
  "run_check w st =
     (if urls st = [] then (st, Inl ValueError)
      else case run_workers w st (urls st) of
             (st1, results) \<Rightarrow>
               (case process_results w st1 False results of
                  (st2, any_new_found) \<Rightarrow> (st2, Inr any_new_found)))"

subsection \<open>Completion and the monitor loop\<close>

fun count_terms :: "monitor \<Rightarrow> string \<Rightarrow> string list \<Rightarrow> nat \<Rightarrow> error + nat" where
  "count_terms st url [] found_count = Inr found_count"
| "count_terms st url (search_text # rest) found_count =
     (case found_items st url of
        None \<Rightarrow> Inl KeyError
      | Some d \<Rightarrow>
          count_terms st url rest (if is_found d search_text then found_count + 1 else found_count))"

fun count_urls :: "monitor \<Rightarrow> string list \<Rightarrow> nat \<Rightarrow> error + nat" where
  "count_urls st [] found_count = Inr found_count"
| "count_urls st (url # rest) found_count =
     (case count_terms st url (search_texts st) found_count of
        Inl e \<Rightarrow> Inl e
      | Inr found_count' \<Rightarrow> count_urls st rest found_count')"

definition get_completion_status :: "monitor \<Rightarrow> error + nat \<times> nat" where
  "get_completion_status st =
     (let total_expected = length (urls st) * length (search_texts st)
      in case count_urls st (urls st) 0 of
           Inl e \<Rightarrow> Inl e
         | Inr found_count \<Rightarrow> Inr (found_count, total_expected))"

definition all_items_found :: "monitor \<Rightarrow> error + bool" where
  "all_items_found st =
     (case get_completion_status st of
        Inl e \<Rightarrow> Inl e
      | Inr (found_count, total_expected) \<Rightarrow> Inr (found_count = total_expected))"

text \<open>\<^verbatim>\<open>str(n)\<close> of a natural number, in decimal.\<close>

function str_nat :: "nat \<Rightarrow> string" where
  "str_nat n =
     (if n < 10 then [char_of (48 + n)] else str_nat (n div 10) @ [char_of (48 + n mod 10)])"
  by pat_completeness auto
termination
  by (relation "measure id") auto

text \<open>The lines of the summary for one URL (lines 549 to 554).\<close>

fun final_lines :: "world \<Rightarrow> monitor \<Rightarrow> string \<Rightarrow> string list \<Rightarrow> error + string" where
  "final_lines w st url [] = Inr []"
| "final_lines w st url (search_text # rest) =
     (case found_items st url of
        None \<Rightarrow> Inl KeyError
      | Some d \<Rightarrow>
          (case d search_text of
             None \<Rightarrow> Inl KeyError
           | Some v \<Rightarrow>
               (case final_lines w st url rest of
                  Inl e \<Rightarrow> Inl e
                | Inr lines \<Rightarrow>
                    Inr ((case v of
                            Some ts \<Rightarrow>
                              ''  [FOUND] '' @ search_text @ '' (found at '' @ strftime w ts @ '')''
                              @ newline
                          | None \<Rightarrow> ''  [NOT FOUND] '' @ search_text @ newline)
                         @ lines))))"

fun final_sites :: "world \<Rightarrow> monitor \<Rightarrow> string list \<Rightarrow> error + string" where
  "final_sites w st [] = Inr []"
| "final_sites w st (url # rest) =
     (case final_lines w st url (search_texts st) of
        Inl e \<Rightarrow> Inl e
      | Inr lines \<Rightarrow>
          (case final_sites w st rest of
             Inl e \<Rightarrow> Inl e
           | Inr sites \<Rightarrow> Inr (''Site: '' @ url @ '':'' @ newline @ lines @ newline @ sites)))"

definition final_message :: "world \<Rightarrow> monitor \<Rightarrow> nat \<Rightarrow> error + string" where
  "final_message w st total_expected =
     (case final_sites w st (urls st) of
        Inl e \<Rightarrow> Inl e
      | Inr sites \<Rightarrow>
          Inr (''Site Monitor has completed its mission successfully!'' @ newline @ newline
               @ ''All '' @ str_nat total_expected @ '' search combinations have been found:''
               @ newline @ newline
               @ sites
               @ ''The monitor will now stop to avoid spam notifications.''))"

text \<open>
  One pass of the body of \<^verbatim>\<open>while True\<close>. The result \<open>Some message\<close> is
  \<^verbatim>\<open>sys.exit(0)\<close> after the summary \<open>message\<close> was handed to
  \<^verbatim>\<open>send_pushover_notification\<close>; \<open>None\<close> is the sleep before the next pass, which
  is also where an exception caught by \<^verbatim>\<open>except Exception\<close> ends.
\<close>

definition monitor_pass :: "world \<Rightarrow> monitor \<Rightarrow> monitor \<times> string option" where
  "monitor_pass w st =
     (case run_check w st of
        (st1, Inl e) \<Rightarrow> (st1, None)
      | (st1, Inr found) \<Rightarrow>
          (case get_completion_status st1 of
             Inl e \<Rightarrow> (st1, None)
           | Inr (found_count, total_expected) \<Rightarrow>
               (case all_items_found st1 of
                  Inl e \<Rightarrow> (st1, None)
                | Inr all_found \<Rightarrow>
                    if all_found \<and> auto_stop_on_found st1
                    then (case final_message w st1 total_expected of
                            Inl e \<Rightarrow> (st1, None)
                          | Inr message \<Rightarrow> (st1, Some message))
                    else (st1, None))))"

text \<open>
  The loop of \<^verbatim>\<open>start_monitoring\<close> over the worlds of the successive cycles. The
  loop of the source has no end of its own: it runs until \<^verbatim>\<open>sys.exit(0)\<close> or an
  interrupt from the keyboard, which is the end of the list here. The notification at
  start-up, whose result the source ignores, writes nothing and is left out.
\<close>

datatype outcome =
  is_exit: Exit0 (final_state: monitor) (summary: string)
| Interrupted (final_state: monitor)

fun start_monitoring :: "monitor \<Rightarrow> world list \<Rightarrow> outcome" where
  "start_monitoring st [] = Interrupted st"
| "start_monitoring st (w # ws) =
     (case monitor_pass w st of
        (st1, Some message) \<Rightarrow> Exit0 st1 message
      | (st1, None) \<Rightarrow> start_monitoring st1 ws)"

text \<open>The state after the check cycles of the given worlds, without the test for the end.\<close>

fun run_checks :: "monitor \<Rightarrow> world list \<Rightarrow> monitor" where
  "run_checks st [] = st"
| "run_checks st (w # ws) = run_checks (fst (run_check w st)) ws"

subsection \<open>The ledger as the specification reads it\<close>

text \<open>The time at which a pair was found, if it is found.\<close>

definition found_time :: "monitor \<Rightarrow> string \<Rightarrow> string \<Rightarrow> timestamp option" where
  "found_time st url t =
     (case found_items st url of
        None \<Rightarrow> None
      | Some d \<Rightarrow> (case d t of Some (Some ts) \<Rightarrow> Some ts | _ \<Rightarrow> None))"

definition notified :: "monitor \<Rightarrow> string \<Rightarrow> string \<Rightarrow> bool" where
  "notified st url t =
     (case notification_sent st url of None \<Rightarrow> False | Some flags \<Rightarrow> flags t = Some True)"

datatype entry_state = NotFound | Found | Notified

definition entry_state :: "monitor \<Rightarrow> string \<Rightarrow> string \<Rightarrow> entry_state" where
  "entry_state st url t =
     (if notified st url t then Notified
      else if found_time st url t \<noteq> None then Found else NotFound)"

fun rank :: "entry_state \<Rightarrow> nat" where
  "rank NotFound = 0"
| "rank Found = 1"
| "rank Notified = 2"

text \<open>Both dictionaries have the keys of the pair, as \<^verbatim>\<open>__init__\<close> leaves them.\<close>

definition has_keys :: "monitor \<Rightarrow> string \<Rightarrow> string \<Rightarrow> bool" where
  "has_keys st url t =
     ((case found_items st url of None \<Rightarrow> False | Some d \<Rightarrow> d t \<noteq> None) \<and>
      (case notification_sent st url of None \<Rightarrow> False | Some flags \<Rightarrow> flags t \<noteq> None))"

definition configured :: "monitor \<Rightarrow> bool" where
  "configured st = (\<forall>url \<in> set (urls st). \<forall>t \<in> set (search_texts st). has_keys st url t)"

text \<open>Every configured pair is found: what \<^verbatim>\<open>all_items_found\<close> decides.\<close>

definition every_pair_found :: "monitor \<Rightarrow> bool" where
  "every_pair_found st =
     (\<forall>url \<in> set (urls st). \<forall>t \<in> set (search_texts st). found_time st url t \<noteq> None)"

text \<open>The number of found pairs, as \<^verbatim>\<open>get_completion_status\<close> counts them.\<close>

definition found_count :: "monitor \<Rightarrow> nat" where
  "found_count st =
     sum_list (map (\<lambda>url. length (filter (\<lambda>t. found_time st url t \<noteq> None) (search_texts st)))
       (urls st))"

text \<open>The line of the summary for one pair, and the block of one URL.\<close>

definition summary_line :: "world \<Rightarrow> monitor \<Rightarrow> string \<Rightarrow> string \<Rightarrow> string" where
  "summary_line w st url t =
     (case found_time st url t of
        Some ts \<Rightarrow> ''  [FOUND] '' @ t @ '' (found at '' @ strftime w ts @ '')'' @ newline
      | None \<Rightarrow> ''  [NOT FOUND] '' @ t @ newline)"

definition summary_site :: "world \<Rightarrow> monitor \<Rightarrow> string \<Rightarrow> string" where
  "summary_site w st url =
     ''Site: '' @ url @ '':'' @ newline
     @ concat (map (summary_line w st url) (search_texts st)) @ newline"

subsection \<open>The discipline of the events of a pair\<close>

text \<open>
  The discipline of the events of one pair: a commit comes first and only once, a
  dispatch comes after the commit and only while no dispatch has succeeded. \<open>None\<close> is a
  sequence of events that breaks it.
\<close>

datatype phase = Fresh | Pending | Done

fun dispatch_step :: "string \<Rightarrow> string \<Rightarrow> phase option \<Rightarrow> event \<Rightarrow> phase option" where
  "dispatch_step url t p (Committed url' t' ts) =
     (if url' = url \<and> t' = t then (case p of Some Fresh \<Rightarrow> Some Pending | _ \<Rightarrow> None) else p)"
| "dispatch_step url t p (Dispatched url' t' ok) =
     (if url' = url \<and> t' = t
      then (case p of Some Pending \<Rightarrow> Some (if ok then Done else Pending) | _ \<Rightarrow> None)
      else p)"

definition dispatch_discipline :: "string \<Rightarrow> string \<Rightarrow> event list \<Rightarrow> phase option" where
  "dispatch_discipline url t evs = foldl (dispatch_step url t) (Some Fresh) evs"

fun is_commit :: "string \<Rightarrow> string \<Rightarrow> event \<Rightarrow> bool" where
  "is_commit url t (Committed url' t' ts) = (url' = url \<and> t' = t)"
| "is_commit url t (Dispatched url' t' ok) = False"

fun is_dispatch :: "string \<Rightarrow> string \<Rightarrow> event \<Rightarrow> bool" where
  "is_dispatch url t (Committed url' t' ts) = False"
| "is_dispatch url t (Dispatched url' t' ok) = (url' = url \<and> t' = t)"

definition commits_of :: "string \<Rightarrow> string \<Rightarrow> event list \<Rightarrow> nat" where
  "commits_of url t evs = length (filter (is_commit url t) evs)"

definition dispatches_of :: "string \<Rightarrow> string \<Rightarrow> event list \<Rightarrow> nat" where
  "dispatches_of url t evs = length (filter (is_dispatch url t) evs)"

definition failures_of :: "string \<Rightarrow> string \<Rightarrow> event list \<Rightarrow> nat" where
  "failures_of url t evs = length (filter (\<lambda>e. e = Dispatched url t False) evs)"

definition successes_of :: "string \<Rightarrow> string \<Rightarrow> event list \<Rightarrow> nat" where
  "successes_of url t evs = length (filter (\<lambda>e. e = Dispatched url t True) evs)"

subsection \<open>Relations between the states of a run\<close>

text \<open>
  From \<open>st\<close> to \<open>st'\<close> the configuration is kept and no pair goes back: keys stay, a
  found time stays as it is, a raised flag stays raised.
\<close>

definition advances :: "monitor \<Rightarrow> monitor \<Rightarrow> bool" where
  "advances st st' =
     (urls st' = urls st \<and> search_texts st' = search_texts st \<and>
      notification_title st' = notification_title st \<and>
      auto_stop_on_found st' = auto_stop_on_found st \<and>
      (\<forall>url t. (has_keys st url t \<longrightarrow> has_keys st' url t) \<and>
               (\<forall>ts. found_time st url t = Some ts \<longrightarrow> found_time st' url t = Some ts) \<and>
               (notified st url t \<longrightarrow> notified st' url t)))"

text \<open>
  The ledger agrees with the history: a raised flag implies a found time, and the events
  of every pair keep the discipline and have led to the state the ledger shows.
\<close>

definition coherent :: "monitor \<Rightarrow> bool" where
  "coherent st =
     (\<forall>url t. (notified st url t \<longrightarrow> found_time st url t \<noteq> None) \<and>
        dispatch_discipline url t (history st) =
          Some (if found_time st url t = None then Fresh
                else if notified st url t then Done else Pending))"

text \<open>
  What the task of one URL does to the monitor: it advances it, writes in
  \<^verbatim>\<open>found_items\<close> at its own URL only, and dispatches nothing.
\<close>

definition worker_step :: "string \<Rightarrow> monitor \<Rightarrow> monitor \<Rightarrow> bool" where
  "worker_step url st st' =
     (advances st st' \<and> notification_sent st' = notification_sent st \<and>
      (\<forall>u. u \<noteq> url \<longrightarrow> found_items st' u = found_items st u) \<and>
      (\<forall>u t. dispatches_of u t (history st') = dispatches_of u t (history st)) \<and>
      (coherent st \<longrightarrow> coherent st'))"

text \<open>What the notification loop does: it advances the monitor and leaves \<^verbatim>\<open>found_items\<close>.\<close>

definition notify_step :: "monitor \<Rightarrow> monitor \<Rightarrow> bool" where
  "notify_step st st' = (advances st st' \<and> found_items st' = found_items st)"

text \<open>What a whole cycle does.\<close>

definition cycle_step :: "monitor \<Rightarrow> monitor \<Rightarrow> bool" where
  "cycle_step st st' = (advances st st' \<and> (coherent st \<longrightarrow> coherent st'))"

text \<open>The pairs of the records handed to the notification loop are found.\<close>

definition infos_found :: "monitor \<Rightarrow> info list \<Rightarrow> bool" where
  "infos_found st infos =
     (\<forall>i \<in> set infos. found_time st (i_found_at i) (i_search_term i) \<noteq> None)"

definition results_found :: "monitor \<Rightarrow> (string \<times> (error + info list)) list \<Rightarrow> bool" where
  "results_found st rs =
     (\<forall>u infos. (u, Inr infos) \<in> set rs \<longrightarrow>
        (\<forall>i \<in> set infos. i_found_at i = u) \<and> infos_found st infos)"

text \<open>Every record of a result carries the URL of its task.\<close>

definition own_results :: "(string \<times> (error + info list)) list \<Rightarrow> bool" where
  "own_results rs =
     (\<forall>u infos. (u, Inr infos) \<in> set rs \<longrightarrow> (\<forall>i \<in> set infos. i_found_at i = u))"

text \<open>Nothing happened to the notification of a pair.\<close>

definition quiet_for :: "string \<Rightarrow> string \<Rightarrow> monitor \<Rightarrow> monitor \<Rightarrow> bool" where
  "quiet_for url t st st' =
     (notified st' url t = notified st url t \<and>
      dispatches_of url t (history st') = dispatches_of url t (history st))"

subsection \<open>Two runs that differ at one target\<close>

text \<open>Two worlds that are the same but for what the network answers at the URL \<open>x\<close>.\<close>

definition same_world_off :: "string \<Rightarrow> world \<Rightarrow> world \<Rightarrow> bool" where
  "same_world_off x w w' =
     ((\<forall>u n. u \<noteq> x \<longrightarrow> http_get w' u n = http_get w u n) \<and>
      parse_html w' = parse_html w \<and> urljoin w' = urljoin w \<and> now w' = now w \<and>
      pushover_post w' = pushover_post w)"

text \<open>Two monitors with the same configuration and the same ledger but for the URL \<open>x\<close>.\<close>

definition same_ledger_off :: "string \<Rightarrow> monitor \<Rightarrow> monitor \<Rightarrow> bool" where
  "same_ledger_off x s s' =
     (urls s' = urls s \<and> search_texts s' = search_texts s \<and>
      notification_title s' = notification_title s \<and>
      (\<forall>u. u \<noteq> x \<longrightarrow> found_items s' u = found_items s u \<and>
                       notification_sent s' u = notification_sent s u))"

text \<open>Two lists of task results that are the same but at the URL \<open>x\<close>.\<close>

definition same_results_off :: "string \<Rightarrow> (string \<times> (error + info list)) list
    \<Rightarrow> (string \<times> (error + info list)) list \<Rightarrow> bool" where
  "same_results_off x rs rs' =
     list_all2 (\<lambda>p p'. fst p' = fst p \<and> (fst p \<noteq> x \<longrightarrow> snd p' = snd p)) rs rs'"

subsection \<open>A small world\<close>

text \<open>
  One page, with the term in the text of a link, and a Pushover service that answers every
  message with the given status code.
\<close>

definition example_soup :: soup where
  "example_soup =
     \<lparr>page_text = ''New DJI!'', title_string = None, metas = [], imgs = [],
      anchors = [\<lparr>a_text = ''New DJI!'', a_title = None, a_href = Some ''/p''\<rparr>],
      data_product_names = [], data_titles = [], inputs = [], headings = [],
      product_containers = []\<rparr>"

definition empty_soup :: soup where
  "empty_soup =
     \<lparr>page_text = [], title_string = None, metas = [], imgs = [], anchors = [],
      data_product_names = [], data_titles = [], inputs = [], headings = [],
      product_containers = []\<rparr>"

definition example_world :: "nat \<Rightarrow> world" where
  "example_world status =
     \<lparr>http_get = (\<lambda>url attempt. Response 200 ''<a href=/p>New DJI!</a>'' 24),
      parse_html = (\<lambda>html. if html = [] then empty_soup else example_soup),
      urljoin = (\<lambda>base href. Inr (base @ href)),
      now = (\<lambda>url t. 7),
      pushover_post = (\<lambda>message title. Status status),
      strftime = str_nat\<rparr>"

definition example_monitor :: monitor where
  "example_monitor = init_monitor [''http://a''] [''DJI''] ''Content Found!'' True"

text \<open>The record of the link, the monitor after the commit, and after the dispatch.\<close>

definition example_info :: info where
  "example_info =
     \<lparr>i_type = ''link'', i_text = ''New DJI!'', i_url = Some ''/p'',
       i_full_url = Some ''http://a/p'', i_tag = None, i_price = None,
       i_search_term = ''DJI'', i_found_at = ''http://a''\<rparr>"

definition committed_monitor :: monitor where
  "committed_monitor = example_monitor
     \<lparr>found_items := (found_items example_monitor)(''http://a'' \<mapsto> [''DJI'' \<mapsto> Some 7]),
      history := [Committed ''http://a'' ''DJI'' 7]\<rparr>"

definition dispatched_monitor :: "bool \<Rightarrow> monitor" where
  "dispatched_monitor ok = committed_monitor
     \<lparr>notification_sent := (notification_sent example_monitor)(''http://a'' \<mapsto> [''DJI'' \<mapsto> ok]),
      history := [Committed ''http://a'' ''DJI'' 7, Dispatched ''http://a'' ''DJI'' ok]\<rparr>"

text \<open>A monitor whose only search term has no letter and no digit.\<close>

definition punctuation_monitor :: monitor where
  "punctuation_monitor = init_monitor [''http://a''] [''!''] ''Content Found!'' True"

text \<open>Two targets, one of which never answers.\<close>

definition two_monitor :: monitor where
  "two_monitor = init_monitor [''http://a'', ''http://b''] [''DJI''] ''Content Found!'' True"

definition half_world :: world where
  "half_world = (example_world 200)\<lparr>http_get :=
     (\<lambda>url attempt. if url = ''http://a'' then Timeout
                     else Response 200 ''<a href=/p>New DJI!</a>'' 24)\<rparr>"

text \<open>A page whose link to the product has a malformed reference, which \<^verbatim>\<open>urljoin\<close> refuses.\<close>

definition bad_href_soup :: soup where
  "bad_href_soup =
     \<lparr>page_text = ''New DJI!'', title_string = None, metas = [], imgs = [],
      anchors = [\<lparr>a_text = ''New DJI!'', a_title = None, a_href = Some ''http://[bad''\<rparr>],
      data_product_names = [], data_titles = [], inputs = [], headings = [],
      product_containers = []\<rparr>"

definition bad_href_world :: world where
  "bad_href_world =
     \<lparr>http_get = (\<lambda>url attempt. Response 200 ''<a href=http://[bad>New DJI!</a>'' 31),
      parse_html = (\<lambda>html. if html = [] then empty_soup else bad_href_soup),
      urljoin = (\<lambda>base href. if href = ''http://[bad'' then Inl ValueError else Inr (base @ href)),
      now = (\<lambda>url t. 7),
      pushover_post = (\<lambda>message title. Status 200),
      strftime = str_nat\<rparr>"

section \<open>Properties\<close>

subsection \<open>The normalizer\<close>

lemma is_space_blank: "is_space (CHR '' '')"
  by (simp add: is_space_def code_point_def)

lemma lower_alnum_not_space: "is_lower_alnum c \<Longrightarrow> \<not> is_space c"
  by (auto simp: is_lower_alnum_def is_space_def Let_def)

text \<open>
  Whitespace that the class \<^verbatim>\<open>[^a-z0-9\s]\<close> lets through is turned into a space by
  the second substitution, so the two classes give the same result.
\<close>

lemma sub_spaces_from_class:
  "sub_spaces_from b (map (\<lambda>c. if is_lower_alnum c \<or> is_space c then c else CHR '' '') s) =
   sub_spaces_from b (map (\<lambda>c. if is_lower_alnum c then c else CHR '' '') s)"
  by (induction s arbitrary: b) (auto simp: is_space_blank lower_alnum_not_space)

lemma collapse_whitespace_Cons:
  "collapse_whitespace (c # s) =
     (if is_space c then CHR '' '' # sub_spaces_from True s else c # sub_spaces_from False s)"
proof (induction s arbitrary: c)
  case Nil
  show ?case by simp
next
  case (Cons d cs)
  show ?case by (simp add: Cons.IH)
qed

lemma sub_spaces_collapse: "sub_spaces s = collapse_whitespace s"
  by (cases s) (simp_all add: sub_spaces_def collapse_whitespace_Cons)

lemma normalize_text_reference: "normalize_text s = normalize_reference s"
  by (simp add: normalize_text_def normalize_reference_def sub_non_alnum_def
      sub_spaces_collapse [symmetric] sub_spaces_def
      sub_spaces_from_class TEXT_LIMIT_def Let_def strip_def lower_def)

lemmas char_eval = code_point_def is_space_def is_lower_alnum_def lower_char_def lower_def
  char_of_def bit_0 Let_def

lemmas normalize_eval = normalize_text_def sub_non_alnum_def sub_spaces_def TEXT_LIMIT_def
  strip_def char_eval

lemma normalize_example_left: "normalize_text ''DJI Mini-5 Pro!'' = ''dji mini 5 pro''"
  by (simp add: normalize_eval)

lemma normalize_example_right: "normalize_text ''dji mini 5 pro'' = ''dji mini 5 pro''"
  by (simp add: normalize_eval)

text \<open>
  C9. For every input string, \<^verbatim>\<open>_normalize_text\<close> equals the reference definition
  (truncate to 100000 characters, lowercase, replace every character outside
  \<^verbatim>\<open>[a-z0-9]\<close> with a space, collapse whitespace runs to single spaces, trim both
  ends); in particular normalize("DJI Mini-5 Pro!") = normalize("dji mini 5 pro"). The
  normalizer is a function of its argument alone, so it is pure and deterministic.
\<close>

theorem normalize_text_meets_reference:
  "normalize_text s = normalize_reference s \<and>
   normalize_text ''DJI Mini-5 Pro!'' = normalize_text ''dji mini 5 pro''"
  by (simp only: normalize_text_reference [symmetric] normalize_example_left
      normalize_example_right)

subsection \<open>Empty page content\<close>

text \<open>
  C10. Invoked with absent or empty page content (\<^verbatim>\<open>None\<close> or the empty string),
  \<^verbatim>\<open>check_for_patterns\<close> returns \<^verbatim>\<open>(False, None)\<close> and the monitor is the one it
  was given: \<^verbatim>\<open>found_items\<close> and \<^verbatim>\<open>notification_sent\<close> are unchanged for every pair.
\<close>

theorem check_for_patterns_empty_content:
  "check_for_patterns w st None url specific = (st, Inr (False, None)) \<and>
   check_for_patterns w st (Some []) url specific = (st, Inr (False, None))"
  by (simp add: check_for_patterns_def)

subsection \<open>The commit of a discovery\<close>

text \<open>
  C2. Committing a discovery is idempotent. After a commit of a pair that returned, a
  second commit of the pair, at whatever time, writes nothing and reports no transition:
  the state is the state after the first commit. The time of the pair is the time of the
  first commit if that one made the transition, and the time the pair had before if not.
\<close>

theorem commit_found_idempotent:
  assumes "commit_found st url search_text t1 = Inr (st1, committed)"
  shows "commit_found st1 url search_text t2 = Inr (st1, False) \<and>
         (\<exists>d ts. found_items st1 url = Some d \<and> d search_text = Some (Some ts) \<and>
                 (if committed then ts = t1 else st1 = st))"
  using assms
  by (auto simp: commit_found_def is_found_def split: option.splits if_splits)

theorem commit_found_idempotent_witness:
  "\<exists>st1 d. commit_found (init_monitor [''u''] [''x''] ''t'' True) ''u'' ''x'' 5 = Inr (st1, True) \<and>
     commit_found st1 ''u'' ''x'' 9 = Inr (st1, False) \<and>
     found_items st1 ''u'' = Some d \<and> d ''x'' = Some (Some 5)"
proof -
  define st where "st = init_monitor [''u''] [''x''] ''t'' True"
  define st1 where "st1 = st\<lparr>found_items := (found_items st)(''u'' \<mapsto> [''x'' \<mapsto> Some 5]),
                              history := history st @ [Committed ''u'' ''x'' 5]\<rparr>"
  have first: "commit_found st ''u'' ''x'' 5 = Inr (st1, True)"
    by (simp add: commit_found_def st_def st1_def init_monitor_def is_found_def)
  from commit_found_idempotent [OF first, of 9] first
  show ?thesis
    unfolding st_def by auto
qed

subsection \<open>The discipline of events\<close>

lemma discipline_snoc:
  "dispatch_discipline url t (evs @ [e]) = dispatch_step url t (dispatch_discipline url t evs) e"
  by (simp add: dispatch_discipline_def)

lemma dispatches_split:
  "dispatches_of url t evs = failures_of url t evs + successes_of url t evs"
proof (induction evs)
  case Nil
  show ?case by (simp add: dispatches_of_def failures_of_def successes_of_def)
next
  case (Cons e evs)
  then show ?case
    by (cases e) (auto simp: dispatches_of_def failures_of_def successes_of_def)
qed

lemma discipline_counts:
  "dispatch_discipline url t evs = Some p \<Longrightarrow>
   (case p of
      Fresh \<Rightarrow> commits_of url t evs = 0 \<and> failures_of url t evs = 0 \<and> successes_of url t evs = 0
    | Pending \<Rightarrow> commits_of url t evs = 1 \<and> successes_of url t evs = 0
    | Done \<Rightarrow> commits_of url t evs = 1 \<and> successes_of url t evs = 1)"
proof (induction evs arbitrary: p rule: rev_induct)
  case Nil
  then show ?case
    by (simp add: dispatch_discipline_def commits_of_def failures_of_def successes_of_def)
next
  case (snoc e evs)
  show ?case
  proof (cases e)
    case (Committed u' t' ts)
    with snoc show ?thesis
      by (auto simp: discipline_snoc commits_of_def failures_of_def
          successes_of_def split: if_splits option.splits phase.splits)
  next
    case (Dispatched u' t' ok)
    with snoc show ?thesis
      by (auto simp: discipline_snoc commits_of_def failures_of_def
          successes_of_def split: if_splits option.splits phase.splits)
  qed
qed

lemma discipline_bounds:
  assumes "dispatch_discipline url t evs \<noteq> None"
  shows "commits_of url t evs \<le> 1 \<and> successes_of url t evs \<le> commits_of url t evs \<and>
         dispatches_of url t evs \<le> commits_of url t evs + failures_of url t evs"
proof -
  from assms obtain p where "dispatch_discipline url t evs = Some p" by auto
  from discipline_counts [OF this] show ?thesis
    by (cases p) (auto simp: dispatches_split)
qed

lemma advances_refl: "advances st st"
  by (simp add: advances_def)

lemma advances_trans: "advances a b \<Longrightarrow> advances b c \<Longrightarrow> advances a c"
  by (simp add: advances_def)

lemma worker_step_refl: "worker_step url st st"
  by (simp add: worker_step_def advances_refl)

lemma worker_step_trans: "worker_step url a b \<Longrightarrow> worker_step url b c \<Longrightarrow> worker_step url a c"
  unfolding worker_step_def using advances_trans by auto

lemma commit_found_advances:
  assumes "commit_found st url t ts = Inr (st', b)"
  shows "advances st st'"
  using assms
  by (auto simp: commit_found_def advances_def has_keys_def found_time_def notified_def
      is_found_def split: option.splits if_splits)

lemma commit_found_coherent:
  assumes "commit_found st url t ts = Inr (st', b)" and "coherent st"
  shows "coherent st'"
proof (cases b)
  case False
  with assms show ?thesis
    by (auto simp: commit_found_def split: option.splits if_splits)
next
  case True
  with assms(1) obtain d where d: "found_items st url = Some d" "\<not> is_found d t"
    and st': "st' = st\<lparr>found_items := (found_items st)(url \<mapsto> d(t \<mapsto> Some ts)),
                      history := history st @ [Committed url t ts]\<rparr>"
    by (auto simp: commit_found_def split: option.splits if_splits)
  from d have fresh: "found_time st url t = None"
    by (auto simp: found_time_def is_found_def split: option.splits)
  have ft: "found_time st' u x = (if u = url \<and> x = t then Some ts else found_time st u x)" for u x
    using d by (auto simp: st' found_time_def)
  have nt: "notified st' u x = notified st u x" for u x
    by (simp add: st' notified_def)
  have hist: "history st' = history st @ [Committed url t ts]"
    by (simp add: st')
  show ?thesis
    unfolding coherent_def
  proof (intro allI)
    fix u x
    from assms(2) have c: "notified st u x \<longrightarrow> found_time st u x \<noteq> None"
      "dispatch_discipline u x (history st) =
          Some (if found_time st u x = None then Fresh
                else if notified st u x then Done else Pending)"
      by (auto simp: coherent_def)
    show "(notified st' u x \<longrightarrow> found_time st' u x \<noteq> None) \<and>
        dispatch_discipline u x (history st') =
          Some (if found_time st' u x = None then Fresh
                else if notified st' u x then Done else Pending)"
      using c fresh by (auto simp: ft nt hist discipline_snoc)
  qed
qed

lemma commit_found_worker_step:
  assumes "commit_found st url t ts = Inr (st', b)"
  shows "worker_step url st st'"
  unfolding worker_step_def
  using commit_found_advances [OF assms] commit_found_coherent [OF assms] assms
  by (auto simp: commit_found_def dispatches_of_def split: option.splits if_splits)

lemma match_terms_worker_step:
  "match_terms w url content terms st acc = (st', r) \<Longrightarrow> worker_step url st st'"
proof (induction terms arbitrary: st acc)
  case Nil
  then show ?case by (simp add: worker_step_refl)
next
  case (Cons t terms)
  show ?case
  proof (cases "found_items st url")
    case None
    with Cons.prems show ?thesis by (simp add: worker_step_refl)
  next
    case (Some d)
    show ?thesis
    proof (cases "\<not> is_found d t \<and> str_in (normalize_text t) content")
      case False
      with Cons.prems Some have "match_terms w url content terms st acc = (st', r)"
        by (auto split: if_splits)
      then show ?thesis by (rule Cons.IH)
    next
      case True
      show ?thesis
      proof (cases "commit_found st url t (now w url t)")
        case (Inl e)
        with Cons.prems Some True show ?thesis by (simp add: worker_step_refl)
      next
        case (Inr p)
        obtain st1 b where p: "p = (st1, b)" by (cases p)
        from Cons.prems Some True Inr p
        have "match_terms w url content terms st1 (if b then acc @ [t] else acc) = (st', r)"
          by simp
        then have "worker_step url st1 st'" by (rule Cons.IH)
        moreover from Inr p have "worker_step url st st1"
          by (simp add: commit_found_worker_step)
        ultimately show ?thesis by (rule worker_step_trans [rotated])
      qed
    qed
  qed
qed

lemma worker_step_found:
  "worker_step url st st' \<Longrightarrow> found_time st u t \<noteq> None \<Longrightarrow> found_time st' u t \<noteq> None"
  by (auto simp: worker_step_def advances_def)

lemma commit_found_True:
  assumes "found_items st url = Some d" and "\<not> is_found d t"
  shows "commit_found st url t ts =
     Inr (st\<lparr>found_items := (found_items st)(url \<mapsto> d(t \<mapsto> Some ts)),
             history := history st @ [Committed url t ts]\<rparr>, True)"
  using assms by (simp add: commit_found_def)

text \<open>The loop, in closed form on the dictionary of the URL.\<close>

lemma match_terms_closed:
  assumes "found_items st url = Some d"
  shows "\<exists>st' found_texts.
     match_terms w url content terms st acc = (st', Inr found_texts) \<and>
     set found_texts =
       set acc \<union> {t \<in> set terms. str_in (normalize_text t) content \<and> \<not> is_found d t} \<and>
     found_items st' url =
       Some (\<lambda>t. if t \<in> set terms \<and> str_in (normalize_text t) content \<and> \<not> is_found d t
                 then Some (Some (now w url t)) else d t)"
  using assms
proof (induction terms arbitrary: st d acc)
  case Nil
  then show ?case by simp
next
  case (Cons t terms)
  show ?case
  proof (cases "is_found d t")
    case True
    from Cons.IH [OF Cons.prems, of acc] obtain st' ft where
      h: "match_terms w url content terms st acc = (st', Inr ft)"
      "set ft = set acc \<union> {t \<in> set terms. str_in (normalize_text t) content \<and> \<not> is_found d t}"
      "found_items st' url =
       Some (\<lambda>t. if t \<in> set terms \<and> str_in (normalize_text t) content \<and> \<not> is_found d t
                 then Some (Some (now w url t)) else d t)"
      by blast
    have "match_terms w url content (t # terms) st acc = (st', Inr ft)"
      using Cons.prems True h(1) by simp
    moreover have "set ft =
       set acc \<union> {x \<in> set (t # terms). str_in (normalize_text x) content \<and> \<not> is_found d x}"
      using h(2) True by auto
    moreover have "found_items st' url =
       Some (\<lambda>x. if x \<in> set (t # terms) \<and> str_in (normalize_text x) content \<and> \<not> is_found d x
                 then Some (Some (now w url x)) else d x)"
      using h(3) True by auto
    ultimately show ?thesis by blast
  next
    case False
    show ?thesis
    proof (cases "str_in (normalize_text t) content")
      case no: False
      from Cons.IH [OF Cons.prems, of acc] obtain st' ft where
        h: "match_terms w url content terms st acc = (st', Inr ft)"
        "set ft = set acc \<union> {t \<in> set terms. str_in (normalize_text t) content \<and> \<not> is_found d t}"
        "found_items st' url =
         Some (\<lambda>t. if t \<in> set terms \<and> str_in (normalize_text t) content \<and> \<not> is_found d t
                   then Some (Some (now w url t)) else d t)"
        by blast
      have "match_terms w url content (t # terms) st acc = (st', Inr ft)"
        using Cons.prems False no h(1) by simp
      moreover have "set ft =
         set acc \<union> {x \<in> set (t # terms). str_in (normalize_text x) content \<and> \<not> is_found d x}"
        using h(2) no by auto
      moreover have "found_items st' url =
         Some (\<lambda>x. if x \<in> set (t # terms) \<and> str_in (normalize_text x) content \<and> \<not> is_found d x
                   then Some (Some (now w url x)) else d x)"
        using h(3) no by auto
      ultimately show ?thesis by blast
    next
      case yes: True
      define d1 where "d1 = d(t \<mapsto> Some (now w url t))"
      define st1 where "st1 = st\<lparr>found_items := (found_items st)(url \<mapsto> d1),
             history := history st @ [Committed url t (now w url t)]\<rparr>"
      have c: "commit_found st url t (now w url t) = Inr (st1, True)"
        using commit_found_True [OF Cons.prems False] by (simp add: st1_def d1_def)
      have f1: "found_items st1 url = Some d1" by (simp add: st1_def)
      have found1: "is_found d1 x = (x = t \<or> is_found d x)" for x
        by (simp add: d1_def is_found_def)
      have d1x: "d1 x = (if x = t then Some (Some (now w url t)) else d x)" for x
        by (simp add: d1_def)
      from Cons.IH [OF f1, of "acc @ [t]"] obtain st' ft where
        h: "match_terms w url content terms st1 (acc @ [t]) = (st', Inr ft)"
        "set ft = set (acc @ [t]) \<union>
           {t \<in> set terms. str_in (normalize_text t) content \<and> \<not> is_found d1 t}"
        "found_items st' url =
         Some (\<lambda>t. if t \<in> set terms \<and> str_in (normalize_text t) content \<and> \<not> is_found d1 t
                   then Some (Some (now w url t)) else d1 t)"
        by blast
      have "match_terms w url content (t # terms) st acc = (st', Inr ft)"
        using Cons.prems False yes c h(1) by simp
      moreover have "set ft =
         set acc \<union> {x \<in> set (t # terms). str_in (normalize_text x) content \<and> \<not> is_found d x}"
        using h(2) yes False by (auto simp: found1)
      moreover have "found_items st' url =
         Some (\<lambda>x. if x \<in> set (t # terms) \<and> str_in (normalize_text x) content \<and> \<not> is_found d x
                   then Some (Some (now w url x)) else d x)"
        using h(3) yes False by (auto simp: found1 d1x)
      ultimately show ?thesis by blast
    qed
  qed
qed

lemma match_terms_found:
  "match_terms w url content terms st acc = (st', Inr found_texts) \<Longrightarrow>
   x \<in> set found_texts \<Longrightarrow> x \<in> set acc \<or> found_time st' url x \<noteq> None"
proof (induction terms arbitrary: st acc)
  case Nil
  then show ?case by simp
next
  case (Cons t terms)
  show ?case
  proof (cases "found_items st url")
    case None
    with Cons.prems show ?thesis by simp
  next
    case (Some d)
    show ?thesis
    proof (cases "\<not> is_found d t \<and> str_in (normalize_text t) content")
      case False
      with Cons.prems Some have "match_terms w url content terms st acc = (st', Inr found_texts)"
        by (auto split: if_splits)
      from Cons.IH [OF this Cons.prems(2)] show ?thesis .
    next
      case True
      define st1 where "st1 = st\<lparr>found_items := (found_items st)(url \<mapsto> d(t \<mapsto> Some (now w url t))),
             history := history st @ [Committed url t (now w url t)]\<rparr>"
      have c: "commit_found st url t (now w url t) = Inr (st1, True)"
        using commit_found_True [OF Some] True by (simp add: st1_def)
      with Cons.prems Some True
      have m: "match_terms w url content terms st1 (acc @ [t]) = (st', Inr found_texts)"
        by simp
      have "found_time st1 url t \<noteq> None"
        by (simp add: st1_def found_time_def)
      with match_terms_worker_step [OF m] have "found_time st' url t \<noteq> None"
        by (rule worker_step_found)
      with Cons.IH [OF m Cons.prems(2)] show ?thesis by auto
    qed
  qed
qed

lemma details_of_term_fields:
  "details_of_term uj sp url t = Inr infos \<Longrightarrow> i \<in> set infos \<Longrightarrow>
   i_search_term i = t \<and> i_found_at i = url"
  by (auto simp: details_of_term_def link_details_def link_info_def heading_info_def
      container_info_def split: option.splits sum.splits)

lemma extract_product_details_fields:
  "extract_product_details uj sp found_texts url = Inr infos \<Longrightarrow> i \<in> set infos \<Longrightarrow>
   i_search_term i \<in> set found_texts \<and> i_found_at i = url"
proof (induction found_texts arbitrary: infos)
  case Nil
  then show ?case by simp
next
  case (Cons t found_texts)
  from Cons.prems(1) obtain here rest where
    here: "details_of_term uj sp url t = Inr here"
    and rest: "extract_product_details uj sp found_texts url = Inr rest"
    and infos: "infos = here @ rest"
    by (auto split: sum.splits)
  from Cons.prems(2) infos have "i \<in> set here \<or> i \<in> set rest" by simp
  then show ?case
  proof
    assume "i \<in> set here"
    with details_of_term_fields [OF here] show ?thesis by simp
  next
    assume "i \<in> set rest"
    with Cons.IH [OF rest] show ?thesis by simp
  qed
qed

lemma check_for_patterns_worker_step:
  "check_for_patterns w st html url specific = (st', r) \<Longrightarrow> worker_step url st st'"
  by (auto simp: check_for_patterns_def Let_def worker_step_refl
      split: option.splits if_splits prod.splits sum.splits
      dest: match_terms_worker_step)

lemma check_for_patterns_infos:
  assumes "check_for_patterns w st html url specific = (st', Inr (found, Some infos))"
    and "i \<in> set infos"
  shows "i_found_at i = url \<and> found_time st' url (i_search_term i) \<noteq> None"
proof -
  from assms(1) obtain h terms ft where
    m: "match_terms w url (normalized_page (parse_html w h)) terms st [] = (st', Inr ft)"
    and infos: "extract_product_details (urljoin w) (parse_html w h) ft url = Inr infos"
    by (auto simp: check_for_patterns_def Let_def
        split: option.splits if_splits prod.splits sum.splits)
  from extract_product_details_fields [OF infos assms(2)]
  have "i_search_term i \<in> set ft" "i_found_at i = url" by auto
  with match_terms_found [OF m] show ?thesis by auto
qed

lemma check_single_url_worker_step:
  "check_single_url w st url = (st', r) \<Longrightarrow> worker_step url st st'"
  by (auto simp: check_single_url_def Let_def worker_step_refl
      split: option.splits if_splits prod.splits sum.splits
      dest: check_for_patterns_worker_step)

lemma check_single_url_infos:
  assumes "check_single_url w st url = (st', Inr infos)" and "i \<in> set infos"
  shows "i_found_at i = url \<and> found_time st' url (i_search_term i) \<noteq> None"
  using assms
  by (auto simp: check_single_url_def Let_def
      split: option.splits if_splits prod.splits sum.splits
      dest: check_for_patterns_infos)

lemma notify_step_refl: "notify_step st st"
  by (simp add: notify_step_def advances_refl)

lemma notify_step_trans: "notify_step a b \<Longrightarrow> notify_step b c \<Longrightarrow> notify_step a c"
  unfolding notify_step_def using advances_trans by auto

lemma cycle_step_refl: "cycle_step st st"
  by (simp add: cycle_step_def advances_refl)

lemma cycle_step_trans: "cycle_step a b \<Longrightarrow> cycle_step b c \<Longrightarrow> cycle_step a c"
  unfolding cycle_step_def using advances_trans by auto

text \<open>One pass of the notification loop, in closed form.\<close>

lemma notify_info_closed:
  "notify_info w st i =
     (case notification_sent st (i_found_at i) of
        None \<Rightarrow> Inl KeyError
      | Some flags \<Rightarrow>
          (case flags (i_search_term i) of
             None \<Rightarrow> Inl KeyError
           | Some sent \<Rightarrow>
               if sent then Inr st
               else Inr (st\<lparr>notification_sent := (notification_sent st)(i_found_at i \<mapsto>
                              flags(i_search_term i \<mapsto>
                                send_pushover_notification w st (notification_message i)
                                  (''Found: '' @ i_search_term i))),
                            history := history st @
                              [Dispatched (i_found_at i) (i_search_term i)
                                (send_pushover_notification w st (notification_message i)
                                  (''Found: '' @ i_search_term i))]\<rparr>)))"
  by (auto simp: notify_info_def Let_def send_pushover_notification_def
      split: option.splits bool.splits post_result.splits)

lemma notify_info_step:
  assumes "notify_info w st i = Inr st'"
  shows "notify_step st st'"
  using assms
  by (auto simp: notify_info_closed notify_step_def advances_def has_keys_def found_time_def
      notified_def split: option.splits if_splits)

lemma notify_info_frame:
  assumes "notify_info w st i = Inr st'" and "u \<noteq> i_found_at i"
  shows "notification_sent st' u = notification_sent st u"
  using assms
  by (auto simp: notify_info_closed split: option.splits if_splits)

lemma notify_info_coherent:
  assumes "notify_info w st i = Inr st'" and "coherent st"
    and "found_time st (i_found_at i) (i_search_term i) \<noteq> None"
  shows "coherent st'"
proof (cases "st' = st")
  case True
  with assms show ?thesis by simp
next
  case False
  define ok where "ok = send_pushover_notification w st (notification_message i)
                                  (''Found: '' @ i_search_term i)"
  from assms(1) False obtain flags where
    flags: "notification_sent st (i_found_at i) = Some flags" "flags (i_search_term i) = Some False"
    and st': "st' = st\<lparr>notification_sent := (notification_sent st)(i_found_at i \<mapsto>
                              flags(i_search_term i \<mapsto> ok)),
                      history := history st @ [Dispatched (i_found_at i) (i_search_term i) ok]\<rparr>"
    by (auto simp: notify_info_closed ok_def split: option.splits if_splits)
  from flags have pending: "\<not> notified st (i_found_at i) (i_search_term i)"
    by (simp add: notified_def)
  have ft: "found_time st' u x = found_time st u x" for u x
    by (simp add: st' found_time_def)
  have nt: "notified st' u x =
      (if u = i_found_at i \<and> x = i_search_term i then ok else notified st u x)" for u x
    using flags by (auto simp: st' notified_def)
  have hist: "history st' = history st @ [Dispatched (i_found_at i) (i_search_term i) ok]"
    by (simp add: st')
  show ?thesis
    unfolding coherent_def
  proof (intro allI)
    fix u x
    from assms(2) have c: "notified st u x \<longrightarrow> found_time st u x \<noteq> None"
      "dispatch_discipline u x (history st) =
          Some (if found_time st u x = None then Fresh
                else if notified st u x then Done else Pending)"
      by (auto simp: coherent_def)
    show "(notified st' u x \<longrightarrow> found_time st' u x \<noteq> None) \<and>
        dispatch_discipline u x (history st') =
          Some (if found_time st' u x = None then Fresh
                else if notified st' u x then Done else Pending)"
      using c pending assms(3) by (auto simp: ft nt hist discipline_snoc)
  qed
qed

lemma notify_step_infos_found:
  "notify_step st st' \<Longrightarrow> infos_found st infos \<Longrightarrow> infos_found st' infos"
  by (simp add: notify_step_def infos_found_def found_time_def)

lemma notify_infos_step: "notify_step st (notify_infos w st infos)"
proof (induction infos arbitrary: st)
  case Nil
  show ?case by (simp add: notify_step_refl)
next
  case (Cons i infos)
  show ?case
  proof (cases "notify_info w st i")
    case (Inl e)
    then show ?thesis by (simp add: notify_step_refl)
  next
    case (Inr st1)
    with notify_info_step [OF Inr] Cons.IH [of st1] show ?thesis
      by (auto intro: notify_step_trans)
  qed
qed

lemma notify_infos_frame:
  "\<forall>i \<in> set infos. i_found_at i \<noteq> u \<Longrightarrow>
   notification_sent (notify_infos w st infos) u = notification_sent st u"
proof (induction infos arbitrary: st)
  case Nil
  show ?case by simp
next
  case (Cons i infos)
  show ?case
  proof (cases "notify_info w st i")
    case (Inl e)
    then show ?thesis by simp
  next
    case (Inr st1)
    with notify_info_frame [OF Inr, of u] Cons show ?thesis by auto
  qed
qed

lemma notify_infos_coherent:
  "coherent st \<Longrightarrow> infos_found st infos \<Longrightarrow> coherent (notify_infos w st infos)"
proof (induction infos arbitrary: st)
  case Nil
  then show ?case by simp
next
  case (Cons i infos)
  show ?case
  proof (cases "notify_info w st i")
    case (Inl e)
    with Cons.prems show ?thesis by simp
  next
    case (Inr st1)
    from Cons.prems have here: "found_time st (i_found_at i) (i_search_term i) \<noteq> None"
      and rest: "infos_found st infos"
      by (auto simp: infos_found_def)
    have "coherent st1"
      using notify_info_coherent [OF Inr Cons.prems(1) here] .
    moreover have "infos_found st1 infos"
      using notify_step_infos_found [OF notify_info_step [OF Inr] rest] .
    ultimately have "coherent (notify_infos w st1 infos)" by (rule Cons.IH)
    with Inr show ?thesis by simp
  qed
qed

lemma notify_step_results_found:
  "notify_step st st' \<Longrightarrow> results_found st rs \<Longrightarrow> results_found st' rs"
  unfolding results_found_def using notify_step_infos_found by blast

lemma process_results_step:
  "process_results w st b rs = (st', b') \<Longrightarrow> notify_step st st'"
proof (induction rs arbitrary: st b)
  case Nil
  then show ?case by (simp add: notify_step_refl)
next
  case (Cons p rs)
  obtain u r where p: "p = (u, r)" by (cases p)
  show ?case
  proof (cases r)
    case (Inl e)
    with Cons p show ?thesis by simp
  next
    case (Inr infos)
    show ?thesis
    proof (cases "infos = []")
      case True
      with Cons p Inr show ?thesis by simp
    next
      case False
      with Cons.prems p Inr
      have "process_results w (notify_infos w st infos) True rs = (st', b')" by simp
      then have "notify_step (notify_infos w st infos) st'" by (rule Cons.IH)
      with notify_infos_step [of st w infos] show ?thesis
        by (rule notify_step_trans)
    qed
  qed
qed

lemma process_results_coherent:
  "process_results w st b rs = (st', b') \<Longrightarrow> coherent st \<Longrightarrow> results_found st rs \<Longrightarrow>
   coherent st'"
proof (induction rs arbitrary: st b)
  case Nil
  then show ?case by simp
next
  case (Cons p rs)
  obtain u r where p: "p = (u, r)" by (cases p)
  from Cons.prems(3) have rest: "results_found st rs"
    by (simp add: results_found_def)
  show ?case
  proof (cases r)
    case (Inl e)
    with Cons p rest show ?thesis by simp
  next
    case (Inr infos)
    show ?thesis
    proof (cases "infos = []")
      case True
      with Cons p Inr rest show ?thesis by simp
    next
      case False
      from Cons.prems(3) p Inr have found: "infos_found st infos"
        by (simp add: results_found_def)
      from Cons.prems p Inr False
      have run: "process_results w (notify_infos w st infos) True rs = (st', b')" by simp
      have "coherent (notify_infos w st infos)"
        using notify_infos_coherent [OF Cons.prems(2) found] .
      moreover have "results_found (notify_infos w st infos) rs"
        using notify_step_results_found [OF notify_infos_step rest] .
      ultimately show ?thesis by (rule Cons.IH [OF run])
    qed
  qed
qed

lemma worker_step_results_found:
  "worker_step url st st' \<Longrightarrow> results_found st rs \<Longrightarrow> results_found st' rs"
  unfolding results_found_def infos_found_def
  using worker_step_found by blast

lemma worker_step_cycle: "worker_step url st st' \<Longrightarrow> cycle_step st st'"
  by (simp add: worker_step_def cycle_step_def)

lemma run_workers_step:
  "run_workers w st us = (st', rs) \<Longrightarrow>
   cycle_step st st' \<and> notification_sent st' = notification_sent st \<and>
   (\<forall>u. u \<notin> set us \<longrightarrow> found_items st' u = found_items st u)"
proof (induction us arbitrary: st st' rs)
  case Nil
  then show ?case by (simp add: cycle_step_refl)
next
  case (Cons u us)
  obtain st1 r where c: "check_single_url w st u = (st1, r)"
    by (cases "check_single_url w st u")
  obtain st2 rs2 where rw: "run_workers w st1 us = (st2, rs2)"
    by (cases "run_workers w st1 us")
  from Cons.prems c rw have st': "st' = st2" by simp
  have w1: "worker_step u st st1" using check_single_url_worker_step [OF c] .
  have ih: "cycle_step st1 st2" "notification_sent st2 = notification_sent st1"
    "\<forall>x. x \<notin> set us \<longrightarrow> found_items st2 x = found_items st1 x"
    using Cons.IH [OF rw] by auto
  have "cycle_step st st2"
    using worker_step_cycle [OF w1] ih(1) by (rule cycle_step_trans)
  moreover have "notification_sent st2 = notification_sent st"
    using w1 ih(2) by (simp add: worker_step_def)
  moreover have "\<forall>x. x \<notin> set (u # us) \<longrightarrow> found_items st2 x = found_items st x"
    using w1 ih(3) by (simp add: worker_step_def)
  ultimately show ?case
    unfolding st' by blast
qed

lemma run_workers_results:
  "run_workers w st us = (st', rs) \<Longrightarrow> results_found st' rs"
proof (induction us arbitrary: st st' rs)
  case Nil
  then show ?case by (auto simp: results_found_def)
next
  case (Cons u us)
  obtain st1 r where c: "check_single_url w st u = (st1, r)"
    by (cases "check_single_url w st u")
  obtain st2 rs2 where rw: "run_workers w st1 us = (st2, rs2)"
    by (cases "run_workers w st1 us")
  from Cons.prems c rw have eq: "st' = st2" "rs = (u, r) # rs2" by auto
  have rest: "results_found st2 rs2" using Cons.IH [OF rw] .
  have adv: "advances st1 st2"
    using run_workers_step [OF rw] by (simp add: cycle_step_def)
  have "(\<forall>i \<in> set infos. i_found_at i = u) \<and> infos_found st2 infos" if "r = Inr infos" for infos
  proof -
    from c that have "\<forall>i \<in> set infos. i_found_at i = u \<and>
        found_time st1 u (i_search_term i) \<noteq> None"
      using check_single_url_infos by blast
    with adv show ?thesis
      by (auto simp: infos_found_def advances_def)
  qed
  with rest show ?case
    unfolding eq by (auto simp: results_found_def)
qed

lemma run_check_state:
  "fst (run_check w st) =
     fst (process_results w (fst (run_workers w st (urls st))) False
            (snd (run_workers w st (urls st))))"
  by (simp add: run_check_def split: prod.splits)

lemma run_check_result:
  "urls st \<noteq> [] \<Longrightarrow> \<exists>b. run_check w st = (fst (run_check w st), Inr b)"
  by (simp add: run_check_def split: prod.splits)

lemma run_check_step: "cycle_step st (fst (run_check w st))"
proof -
  obtain st1 rs where rw: "run_workers w st (urls st) = (st1, rs)"
    by (cases "run_workers w st (urls st)")
  obtain st2 b where pr: "process_results w st1 False rs = (st2, b)"
    by (cases "process_results w st1 False rs")
  have rc: "fst (run_check w st) = st2"
    by (simp add: run_check_state rw pr)
  have a: "cycle_step st st1" using run_workers_step [OF rw] by simp
  have "advances st1 st2"
    using process_results_step [OF pr] by (simp add: notify_step_def)
  moreover have "coherent st1 \<longrightarrow> coherent st2"
    using process_results_coherent [OF pr _ run_workers_results [OF rw]] by blast
  ultimately have "cycle_step st1 st2" by (simp add: cycle_step_def)
  with a show ?thesis
    unfolding rc by (rule cycle_step_trans)
qed

lemma run_checks_step: "cycle_step st (run_checks st ws)"
proof (induction ws arbitrary: st)
  case Nil
  show ?case by (simp add: cycle_step_refl)
next
  case (Cons w ws)
  from run_check_step [of st w] Cons.IH [of "fst (run_check w st)"]
  show ?case by (auto intro: cycle_step_trans)
qed

lemma run_checks_append: "run_checks st (ws @ ws') = run_checks (run_checks st ws) ws'"
  by (induction ws arbitrary: st) auto

subsection \<open>The ledger at start-up\<close>

lemma fold_upd_const:
  "fold (\<lambda>t d. d(t \<mapsto> v)) ts m = (\<lambda>t. if t \<in> set ts then Some v else m t)"
  by (induction ts arbitrary: m) (auto simp: fun_eq_iff)

lemma init_found_items:
  "found_items (init_monitor us ts title auto) =
     (\<lambda>u. if u \<in> set us then Some (\<lambda>t. if t \<in> set ts then Some None else None) else None)"
  by (simp add: init_monitor_def fold_upd_const)

lemma init_notification_sent:
  "notification_sent (init_monitor us ts title auto) =
     (\<lambda>u. if u \<in> set us then Some (\<lambda>t. if t \<in> set ts then Some False else None) else None)"
  by (simp add: init_monitor_def fold_upd_const)

lemma init_fields:
  "urls (init_monitor us ts title auto) = us"
  "search_texts (init_monitor us ts title auto) = ts"
  "auto_stop_on_found (init_monitor us ts title auto) = auto"
  "history (init_monitor us ts title auto) = []"
  by (simp_all add: init_monitor_def)

lemma init_found_time: "found_time (init_monitor us ts title auto) u t = None"
  by (simp add: found_time_def init_found_items)

lemma init_notified: "\<not> notified (init_monitor us ts title auto) u t"
  by (simp add: notified_def init_notification_sent)

lemma init_coherent: "coherent (init_monitor us ts title auto)"
  by (simp add: coherent_def init_found_time init_notified init_fields dispatch_discipline_def)

lemma init_configured: "configured (init_monitor us ts title auto)"
  by (simp add: configured_def has_keys_def init_found_items init_notification_sent init_fields)

lemma advances_configured: "advances st st' \<Longrightarrow> configured st \<Longrightarrow> configured st'"
  by (simp add: advances_def configured_def)

lemma run_checks_coherent: "coherent (run_checks (init_monitor us ts title auto) ws)"
  using run_checks_step [of "init_monitor us ts title auto" ws] init_coherent
  by (simp add: cycle_step_def)

lemma run_checks_configured: "configured (run_checks (init_monitor us ts title auto) ws)"
  using run_checks_step [of "init_monitor us ts title auto" ws] init_configured
  by (auto simp: cycle_step_def intro: advances_configured)

text \<open>
  C1. From start-up and across any number of check cycles, the events of every pair
  keep the discipline: the pair is committed at most once, a dispatch is attempted only
  after the commit, and a further dispatch is attempted only while no dispatch for the
  pair has succeeded. So at most one dispatch succeeds for a commit, and the dispatches
  of a pair number at most its commits plus its failed dispatches.
\<close>

theorem no_duplicate_notification:
  "dispatch_discipline url t (history (run_checks (init_monitor us ts title auto) ws)) \<noteq> None \<and>
   commits_of url t (history (run_checks (init_monitor us ts title auto) ws)) \<le> 1 \<and>
   successes_of url t (history (run_checks (init_monitor us ts title auto) ws))
     \<le> commits_of url t (history (run_checks (init_monitor us ts title auto) ws)) \<and>
   dispatches_of url t (history (run_checks (init_monitor us ts title auto) ws))
     \<le> commits_of url t (history (run_checks (init_monitor us ts title auto) ws))
       + failures_of url t (history (run_checks (init_monitor us ts title auto) ws))"
proof -
  have "dispatch_discipline url t (history (run_checks (init_monitor us ts title auto) ws)) \<noteq> None"
    using run_checks_coherent [of us ts title auto ws] by (simp add: coherent_def)
  with discipline_bounds [OF this] show ?thesis by simp
qed

lemma advances_rank:
  "advances st st' \<Longrightarrow> rank (entry_state st url t) \<le> rank (entry_state st' url t)"
  by (auto simp: advances_def entry_state_def)

lemma advances_found_time:
  "advances st st' \<Longrightarrow> found_time st url t = Some ts \<Longrightarrow> found_time st' url t = Some ts"
  by (simp add: advances_def)

lemma advances_notified: "advances st st' \<Longrightarrow> notified st url t \<Longrightarrow> notified st' url t"
  by (simp add: advances_def)

lemma run_checks_advances: "advances st (run_checks st ws)"
  using run_checks_step [of st ws] by (simp add: cycle_step_def)

lemma count_terms_configured:
  "\<forall>t \<in> set terms. has_keys st url t \<Longrightarrow>
   count_terms st url terms n =
     Inr (n + length (filter (\<lambda>t. found_time st url t \<noteq> None) terms))"
proof (induction terms arbitrary: n)
  case Nil
  show ?case by simp
next
  case (Cons t terms)
  from Cons.prems obtain d where d: "found_items st url = Some d"
    by (auto simp: has_keys_def split: option.splits)
  have "is_found d t = (found_time st url t \<noteq> None)"
    by (auto simp: is_found_def found_time_def d split: option.splits)
  with Cons d show ?case by simp
qed

lemma count_urls_configured:
  "\<forall>url \<in> set us. \<forall>t \<in> set (search_texts st). has_keys st url t \<Longrightarrow>
   count_urls st us n =
     Inr (n + sum_list (map (\<lambda>url. length (filter (\<lambda>t. found_time st url t \<noteq> None)
        (search_texts st))) us))"
proof (induction us arbitrary: n)
  case Nil
  show ?case by simp
next
  case (Cons u us)
  then show ?case by (simp add: count_terms_configured)
qed

lemma get_completion_status_configured:
  "configured st \<Longrightarrow>
   get_completion_status st = Inr (found_count st, length (urls st) * length (search_texts st))"
  by (simp add: get_completion_status_def configured_def count_urls_configured found_count_def)

lemma length_filter_mono:
  "\<forall>x \<in> set xs. P x \<longrightarrow> Q x \<Longrightarrow> length (filter P xs) \<le> length (filter Q xs)"
  by (induction xs) auto

lemma advances_found_count: "advances st st' \<Longrightarrow> found_count st \<le> found_count st'"
  unfolding found_count_def
proof -
  assume a: "advances st st'"
  then have eq: "urls st' = urls st" "search_texts st' = search_texts st"
    by (auto simp: advances_def)
  have "length (filter (\<lambda>t. found_time st url t \<noteq> None) (search_texts st))
      \<le> length (filter (\<lambda>t. found_time st' url t \<noteq> None) (search_texts st))" for url
    using a by (intro length_filter_mono) (auto simp: advances_def)
  then show "sum_list (map (\<lambda>url. length (filter (\<lambda>t. found_time st url t \<noteq> None)
        (search_texts st))) (urls st))
    \<le> sum_list (map (\<lambda>url. length (filter (\<lambda>t. found_time st' url t \<noteq> None)
        (search_texts st'))) (urls st'))"
    unfolding eq by (intro sum_list_mono) simp
qed

text \<open>
  C6. At every point of the run the completion counter returns, its total is the number
  of URLs times the number of search terms given at start-up, and the found count after
  further cycles is at least the found count before them.
\<close>

theorem completion_accounting:
  "\<exists>c1 c2.
     get_completion_status (run_checks (init_monitor us ts title auto) ws)
       = Inr (c1, length us * length ts) \<and>
     get_completion_status (run_checks (init_monitor us ts title auto) (ws @ ws'))
       = Inr (c2, length us * length ts) \<and>
     c1 \<le> c2"
proof -
  define s0 where "s0 = init_monitor us ts title auto"
  define s1 where "s1 = run_checks s0 ws"
  define s2 where "s2 = run_checks s0 (ws @ ws')"
  have s2: "s2 = run_checks s1 ws'" by (simp add: s2_def s1_def run_checks_append)
  have a1: "advances s0 s1" unfolding s1_def by (rule run_checks_advances)
  have a2: "advances s1 s2" unfolding s2 by (rule run_checks_advances)
  have c1: "configured s1" unfolding s1_def s0_def by (rule run_checks_configured)
  have c2: "configured s2" unfolding s2_def s0_def by (rule run_checks_configured)
  have f1: "urls s1 = us" "search_texts s1 = ts"
    using a1 by (auto simp: advances_def s0_def init_fields)
  have f2: "urls s2 = us" "search_texts s2 = ts"
    using a2 f1 by (auto simp: advances_def)
  have "get_completion_status s1 = Inr (found_count s1, length us * length ts)"
    using get_completion_status_configured [OF c1] by (simp add: f1)
  moreover have "get_completion_status s2 = Inr (found_count s2, length us * length ts)"
    using get_completion_status_configured [OF c2] by (simp add: f2)
  moreover have "found_count s1 \<le> found_count s2"
    using a2 by (rule advances_found_count)
  ultimately show ?thesis
    unfolding s1_def s2_def s0_def by blast
qed

subsection \<open>The small world, evaluated\<close>

lemma example_fetch: "fetch_page (example_world s) u = Some ''<a href=/p>New DJI!</a>''"
  by (simp add: fetch_page_def MAX_RETRIES_def example_world_def MAX_CONTENT_SIZE_def numeral_3_eq_3)

lemma example_content: "normalized_page example_soup = ''new dji p''"
  by (simp add: normalized_page_def example_soup_def collect_searchable_content_def if_true_def
      normalize_eval)

lemma example_term: "normalize_text ''DJI'' = ''dji''"
  by (simp add: normalize_eval)

lemma example_details:
  "extract_product_details (\<lambda>base href. Inr (base @ href)) example_soup [''DJI''] ''http://a'' =
     Inr [example_info]"
  by (simp add: details_of_term_def link_details_def example_soup_def link_info_def
      full_url_of_def term_in_text_def strip_def char_eval example_info_def)

lemma example_world_fields:
  "h \<noteq> [] \<Longrightarrow> parse_html (example_world s) h = example_soup"
  "parse_html (example_world s) [] = empty_soup"
  "urljoin (example_world s) = (\<lambda>base href. Inr (base @ href))"
  "now (example_world s) u t = 7"
  "pushover_post (example_world s) m title = Status s"
  "strftime (example_world s) = str_nat"
  by (simp_all add: example_world_def)

lemma example_monitor_fields:
  "urls example_monitor = [''http://a'']"
  "search_texts example_monitor = [''DJI'']"
  "history example_monitor = []"
  "auto_stop_on_found example_monitor = True"
  "found_items example_monitor ''http://a'' = Some [''DJI'' \<mapsto> None]"
  "notification_sent example_monitor ''http://a'' = Some [''DJI'' \<mapsto> False]"
  by (simp_all add: example_monitor_def init_monitor_def)

lemma example_match:
  "match_terms (example_world s) ''http://a'' ''new dji p'' [''DJI''] example_monitor [] =
     (committed_monitor, Inr [''DJI''])"
  by (simp add: example_world_fields example_term example_monitor_fields commit_found_def
      is_found_def committed_monitor_def)

lemma example_check:
  "check_single_url (example_world s) example_monitor ''http://a'' =
     (committed_monitor, Inr [example_info])"
  by (simp add: check_single_url_def example_fetch check_for_patterns_def example_world_fields
      example_content search_texts_to_check_def example_monitor_fields example_match
      example_details Let_def del: match_terms.simps extract_product_details.simps)

lemma example_cycle:
  "run_check (example_world s) example_monitor = (dispatched_monitor (s = 200), Inr True)"
  by (simp add: run_check_def example_monitor_fields example_check notify_info_closed
      committed_monitor_def dispatched_monitor_def send_pushover_notification_def
      example_world_fields example_info_def)

lemma dispatched_monitor_fields:
  "urls (dispatched_monitor ok) = [''http://a'']"
  "search_texts (dispatched_monitor ok) = [''DJI'']"
  "auto_stop_on_found (dispatched_monitor ok) = True"
  "found_time (dispatched_monitor ok) ''http://a'' ''DJI'' = Some 7"
  "notified (dispatched_monitor ok) ''http://a'' ''DJI'' = ok"
  "history (dispatched_monitor ok) =
     [Committed ''http://a'' ''DJI'' 7, Dispatched ''http://a'' ''DJI'' ok]"
  by (simp_all add: dispatched_monitor_def committed_monitor_def example_monitor_fields
      found_time_def notified_def)

subsection \<open>The ledger moves forward\<close>

lemma notify_info_advances: "notify_info w st i = Inr st' \<Longrightarrow> advances st st'"
  using notify_info_step by (simp add: notify_step_def)

text \<open>
  C3. For every pair, from any point of the run to any later one the state does not
  decrease in the order NotFound, Found, Notified: a time that is set stays set and stays
  the same, the notified flag of a pair stays raised once a dispatch has succeeded, and
  a raised flag implies that the time is set. The two operations that write the ledger
  do not decrease the state either: the commit, and the pass of the notification loop,
  which raises the flag, lowers it again only when the dispatch failed, and leaves
  \<^verbatim>\<open>found_items\<close> as it is.
\<close>

theorem ledger_moves_forward:
  assumes "s1 = run_checks (init_monitor us ts title auto) ws"
    and "s2 = run_checks s1 ws'"
  shows "rank (entry_state s1 url t) \<le> rank (entry_state s2 url t) \<and>
    (\<forall>time. found_time s1 url t = Some time \<longrightarrow> found_time s2 url t = Some time) \<and>
    (notified s1 url t \<longrightarrow> notified s2 url t) \<and>
    (notified s2 url t \<longrightarrow> found_time s2 url t \<noteq> None) \<and>
    (\<forall>u x time s b. commit_found s1 u x time = Inr (s, b) \<longrightarrow>
       rank (entry_state s1 url t) \<le> rank (entry_state s url t) \<and>
       (\<forall>time. found_time s1 url t = Some time \<longrightarrow> found_time s url t = Some time)) \<and>
    (\<forall>w i s. notify_info w s1 i = Inr s \<longrightarrow>
       rank (entry_state s1 url t) \<le> rank (entry_state s url t) \<and>
       found_items s = found_items s1)"
proof -
  have a: "advances s1 s2"
    unfolding assms(2) by (rule run_checks_advances)
  have "coherent s2"
    unfolding assms using run_checks_coherent [of us ts title auto "ws @ ws'"]
    by (simp add: run_checks_append)
  then have "notified s2 url t \<longrightarrow> found_time s2 url t \<noteq> None"
    by (simp add: coherent_def)
  moreover have "rank (entry_state s1 url t) \<le> rank (entry_state s url t) \<and>
       (\<forall>time. found_time s1 url t = Some time \<longrightarrow> found_time s url t = Some time)"
    if "commit_found s1 u x time = Inr (s, b)" for u x time s b
    using commit_found_advances [OF that] advances_rank advances_found_time by blast
  moreover have "rank (entry_state s1 url t) \<le> rank (entry_state s url t) \<and>
       found_items s = found_items s1"
    if "notify_info w s1 i = Inr s" for w i s
    using notify_info_step [OF that] advances_rank by (simp add: notify_step_def)
  ultimately show ?thesis
    using advances_rank [OF a] advances_found_time [OF a] advances_notified [OF a] by blast
qed

theorem ledger_moves_forward_witness:
  "rank (entry_state (run_checks example_monitor [example_world 200]) ''http://a'' ''DJI'') = 2 \<and>
   rank (entry_state (run_checks (run_checks example_monitor [example_world 200])
      [example_world 500]) ''http://a'' ''DJI'') = 2 \<and>
   found_time (run_checks (run_checks example_monitor [example_world 200])
      [example_world 500]) ''http://a'' ''DJI'' = Some 7"
proof -
  define s1 where "s1 = run_checks example_monitor [example_world 200]"
  define s2 where "s2 = run_checks s1 [example_world 500]"
  have s1: "s1 = dispatched_monitor True"
    by (simp add: s1_def example_cycle)
  have r1: "rank (entry_state s1 ''http://a'' ''DJI'') = 2"
    by (simp add: s1 entry_state_def dispatched_monitor_fields)
  have f1: "found_time s1 ''http://a'' ''DJI'' = Some 7"
    by (simp add: s1 dispatched_monitor_fields)
  have n1: "notified s1 ''http://a'' ''DJI''"
    by (simp add: s1 dispatched_monitor_fields)
  from ledger_moves_forward [OF s1_def [unfolded example_monitor_def] s2_def,
      of "''http://a''" "''DJI''"] f1 n1
  have "found_time s2 ''http://a'' ''DJI'' = Some 7" "notified s2 ''http://a'' ''DJI''"
    by auto
  then have "rank (entry_state s2 ''http://a'' ''DJI'') = 2"
    by (simp add: entry_state_def)
  with r1 \<open>found_time s2 ''http://a'' ''DJI'' = Some 7\<close> show ?thesis
    by (simp add: s1_def s2_def)
qed

subsection \<open>A found pair in later cycles\<close>

lemma advances_fresh:
  "advances st st' \<Longrightarrow> found_time st' url t = None \<Longrightarrow> found_time st url t = None"
  by (cases "found_time st url t") (auto simp: advances_def)

lemma worker_step_advances: "worker_step url st st' \<Longrightarrow> advances st st'"
  by (simp add: worker_step_def)

lemma match_terms_fresh:
  "match_terms w url content terms st acc = (st', Inr found_texts) \<Longrightarrow>
   x \<in> set found_texts \<Longrightarrow> x \<in> set acc \<or> found_time st url x = None"
proof (induction terms arbitrary: st acc)
  case Nil
  then show ?case by simp
next
  case (Cons t terms)
  show ?case
  proof (cases "found_items st url")
    case None
    with Cons.prems show ?thesis by simp
  next
    case (Some d)
    show ?thesis
    proof (cases "\<not> is_found d t \<and> str_in (normalize_text t) content")
      case False
      with Cons.prems Some have "match_terms w url content terms st acc = (st', Inr found_texts)"
        by (auto split: if_splits)
      from Cons.IH [OF this Cons.prems(2)] show ?thesis .
    next
      case True
      define st1 where "st1 = st\<lparr>found_items := (found_items st)(url \<mapsto> d(t \<mapsto> Some (now w url t))),
             history := history st @ [Committed url t (now w url t)]\<rparr>"
      have c: "commit_found st url t (now w url t) = Inr (st1, True)"
        using commit_found_True [OF Some] True by (simp add: st1_def)
      with Cons.prems Some True
      have m: "match_terms w url content terms st1 (acc @ [t]) = (st', Inr found_texts)"
        by simp
      have fresh: "found_time st url t = None"
        using Some True by (auto simp: found_time_def is_found_def split: option.splits)
      have "advances st st1" using commit_found_advances [OF c] .
      with Cons.IH [OF m Cons.prems(2)] fresh show ?thesis
        by (auto dest: advances_fresh)
    qed
  qed
qed

lemma check_for_patterns_fresh:
  assumes "check_for_patterns w st html url specific = (st', Inr (found, Some infos))"
    and "i \<in> set infos"
  shows "found_time st url (i_search_term i) = None"
proof -
  from assms(1) obtain h terms ft where
    m: "match_terms w url (normalized_page (parse_html w h)) terms st [] = (st', Inr ft)"
    and infos: "extract_product_details (urljoin w) (parse_html w h) ft url = Inr infos"
    by (auto simp: check_for_patterns_def Let_def
        split: option.splits if_splits prod.splits sum.splits)
  from extract_product_details_fields [OF infos assms(2)]
  have "i_search_term i \<in> set ft" by auto
  with match_terms_fresh [OF m] show ?thesis by auto
qed

lemma check_single_url_fresh:
  assumes "check_single_url w st url = (st', Inr infos)" and "i \<in> set infos"
  shows "found_time st url (i_search_term i) = None"
  using assms
  by (auto simp: check_single_url_def Let_def
      split: option.splits if_splits prod.splits sum.splits
      dest: check_for_patterns_fresh)

lemma run_workers_fresh:
  "run_workers w st us = (st', rs) \<Longrightarrow> (u, Inr infos) \<in> set rs \<Longrightarrow> i \<in> set infos \<Longrightarrow>
   i_found_at i = u \<and> found_time st u (i_search_term i) = None"
proof (induction us arbitrary: st st' rs)
  case Nil
  then show ?case by simp
next
  case (Cons v us)
  obtain st1 r where c: "check_single_url w st v = (st1, r)"
    by (cases "check_single_url w st v")
  obtain st2 rs2 where rw: "run_workers w st1 us = (st2, rs2)"
    by (cases "run_workers w st1 us")
  from Cons.prems(1) c rw have eq: "rs = (v, r) # rs2" by auto
  show ?case
  proof (cases "(u, Inr infos) \<in> set rs2")
    case True
    from Cons.IH [OF rw True Cons.prems(3)]
    have "i_found_at i = u" "found_time st1 u (i_search_term i) = None" by auto
    moreover have "advances st st1"
      using check_single_url_worker_step [OF c] by (rule worker_step_advances)
    ultimately show ?thesis by (auto dest: advances_fresh)
  next
    case False
    with Cons.prems(2) eq have "v = u" "r = Inr infos" by auto
    with c Cons.prems(3) check_single_url_infos check_single_url_fresh show ?thesis
      by blast
  qed
qed

lemma run_workers_dispatches:
  "run_workers w st us = (st', rs) \<Longrightarrow>
   dispatches_of u t (history st') = dispatches_of u t (history st)"
proof (induction us arbitrary: st st' rs)
  case Nil
  then show ?case by simp
next
  case (Cons v us)
  obtain st1 r where c: "check_single_url w st v = (st1, r)"
    by (cases "check_single_url w st v")
  obtain st2 rs2 where rw: "run_workers w st1 us = (st2, rs2)"
    by (cases "run_workers w st1 us")
  from Cons.prems c rw have st': "st' = st2" by simp
  from check_single_url_worker_step [OF c] Cons.IH [OF rw] show ?case
    unfolding st' by (simp add: worker_step_def)
qed

lemma notify_info_quiet:
  assumes "notify_info w st i = Inr st'" and "i_found_at i \<noteq> url \<or> i_search_term i \<noteq> t"
  shows "quiet_for url t st st'"
  using assms
  by (auto simp: notify_info_closed quiet_for_def notified_def dispatches_of_def
      split: option.splits if_splits)

lemma notify_infos_quiet:
  "\<forall>i \<in> set infos. i_found_at i \<noteq> url \<or> i_search_term i \<noteq> t \<Longrightarrow>
   quiet_for url t st (notify_infos w st infos)"
proof (induction infos arbitrary: st)
  case Nil
  show ?case by (simp add: quiet_for_def)
next
  case (Cons i infos)
  show ?case
  proof (cases "notify_info w st i")
    case (Inl e)
    then show ?thesis by (simp add: quiet_for_def)
  next
    case (Inr st1)
    from Cons.prems have "quiet_for url t st st1"
      by (intro notify_info_quiet [OF Inr]) simp
    moreover from Cons have "quiet_for url t st1 (notify_infos w st1 infos)" by simp
    ultimately show ?thesis using Inr by (simp add: quiet_for_def)
  qed
qed

lemma process_results_quiet:
  "process_results w st b rs = (st', b') \<Longrightarrow>
   \<forall>u infos. (u, Inr infos) \<in> set rs \<longrightarrow>
     (\<forall>i \<in> set infos. i_found_at i \<noteq> url \<or> i_search_term i \<noteq> t) \<Longrightarrow>
   quiet_for url t st st'"
proof (induction rs arbitrary: st b)
  case Nil
  then show ?case by (simp add: quiet_for_def)
next
  case (Cons p rs)
  obtain u r where p: "p = (u, r)" by (cases p)
  from Cons.prems(2) have rest: "\<forall>u infos. (u, Inr infos) \<in> set rs \<longrightarrow>
     (\<forall>i \<in> set infos. i_found_at i \<noteq> url \<or> i_search_term i \<noteq> t)"
    by simp
  show ?case
  proof (cases r)
    case (Inl e)
    with Cons.prems(1) p have "process_results w st b rs = (st', b')" by simp
    from Cons.IH [OF this rest] show ?thesis .
  next
    case (Inr infos)
    show ?thesis
    proof (cases "infos = []")
      case True
      with Cons.prems(1) p Inr have "process_results w st b rs = (st', b')" by simp
      from Cons.IH [OF this rest] show ?thesis .
    next
      case False
      with Cons.prems(1) p Inr
      have "process_results w (notify_infos w st infos) True rs = (st', b')" by simp
      from Cons.IH [OF this rest] have "quiet_for url t (notify_infos w st infos) st'" .
      moreover from Cons.prems(2) p Inr
      have "\<forall>i \<in> set infos. i_found_at i \<noteq> url \<or> i_search_term i \<noteq> t" by simp
      then have "quiet_for url t st (notify_infos w st infos)"
        by (rule notify_infos_quiet)
      ultimately show ?thesis by (simp add: quiet_for_def)
    qed
  qed
qed

lemma run_check_quiet:
  assumes "found_time st url t \<noteq> None"
  shows "quiet_for url t st (fst (run_check w st))"
proof -
  obtain st1 rs where rw: "run_workers w st (urls st) = (st1, rs)"
    by (cases "run_workers w st (urls st)")
  obtain st2 b where pr: "process_results w st1 False rs = (st2, b)"
    by (cases "process_results w st1 False rs")
  have rc: "fst (run_check w st) = st2"
    by (simp add: run_check_state rw pr)
  have ns: "notification_sent st1 = notification_sent st"
    using run_workers_step [OF rw] by simp
  have q1: "quiet_for url t st st1"
    unfolding quiet_for_def notified_def ns
    using run_workers_dispatches [OF rw, of url t] by simp
  have fresh: "i_found_at i \<noteq> url \<or> i_search_term i \<noteq> t"
    if "(u, Inr infos) \<in> set rs" and "i \<in> set infos" for u infos i
    using run_workers_fresh [OF rw that] assms by auto
  have "\<forall>u infos. (u, Inr infos) \<in> set rs \<longrightarrow>
     (\<forall>i \<in> set infos. i_found_at i \<noteq> url \<or> i_search_term i \<noteq> t)"
    by (intro allI impI ballI) (rule fresh)
  with pr have "quiet_for url t st1 st2" by (rule process_results_quiet)
  with q1 show ?thesis
    unfolding rc by (simp add: quiet_for_def)
qed

lemma run_checks_quiet:
  "found_time st url t \<noteq> None \<Longrightarrow> quiet_for url t st (run_checks st ws)"
proof (induction ws arbitrary: st)
  case Nil
  show ?case by (simp add: quiet_for_def)
next
  case (Cons w ws)
  have "advances st (fst (run_check w st))"
    using run_check_step [of st w] by (simp add: cycle_step_def)
  with Cons.prems have "found_time (fst (run_check w st)) url t \<noteq> None"
    by (auto simp: advances_def)
  from Cons.IH [OF this] run_check_quiet [OF Cons.prems, of w] show ?case
    by (simp add: quiet_for_def)
qed

lemma notify_info_failure:
  assumes "notification_sent st (i_found_at i) = Some flags"
    and "flags (i_search_term i) = Some False"
    and "\<not> send_pushover_notification w st (notification_message i) (''Found: '' @ i_search_term i)"
  shows "\<exists>st'. notify_info w st i = Inr st' \<and>
     notification_sent st' = notification_sent st \<and> found_items st' = found_items st \<and>
     history st' = history st @ [Dispatched (i_found_at i) (i_search_term i) False]"
  using assms by (auto simp: notify_info_closed fun_eq_iff)

text \<open>
  C7. When a dispatch fails, the pass of the notification loop lowers the flag again and
  leaves the found time as it is (lemma \<open>notify_info_failure\<close>). But no later cycle
  retries: once a pair is found, whatever the worlds of the cycles that follow, its flag
  stays what it is and no dispatch is attempted for it, since the matcher passes over a
  found pair and only newly matched terms reach the notification loop. A pair whose
  dispatches all failed in the cycle of its commit is never notified.
\<close>

theorem failed_dispatch_not_retried:
  assumes "found_time st url t \<noteq> None"
  shows "notified (run_checks st ws) url t = notified st url t \<and>
         dispatches_of url t (history (run_checks st ws)) = dispatches_of url t (history st)"
  using run_checks_quiet [OF assms, of ws] by (simp add: quiet_for_def)

theorem failed_dispatch_not_retried_witness:
  "found_time (run_checks example_monitor [example_world 500]) ''http://a'' ''DJI'' = Some 7 \<and>
   history (run_checks example_monitor [example_world 500]) =
     [Committed ''http://a'' ''DJI'' 7, Dispatched ''http://a'' ''DJI'' False] \<and>
   \<not> notified (run_checks (run_checks example_monitor [example_world 500]) [example_world 200])
       ''http://a'' ''DJI'' \<and>
   dispatches_of ''http://a'' ''DJI''
     (history (run_checks (run_checks example_monitor [example_world 500]) [example_world 200]))
     = 1"
proof -
  define st where "st = run_checks example_monitor [example_world 500]"
  have st: "st = dispatched_monitor False"
    by (simp add: st_def example_cycle)
  have found: "found_time st ''http://a'' ''DJI'' \<noteq> None"
    by (simp add: st dispatched_monitor_fields)
  from failed_dispatch_not_retried [OF found, of "[example_world 200]"] show ?thesis
    unfolding st_def [symmetric]
    by (simp add: st dispatched_monitor_fields dispatches_of_def)
qed

subsection \<open>The end of the monitor loop\<close>

lemma length_filter_all: "(length (filter P xs) = length xs) = (\<forall>x \<in> set xs. P x)"
proof (induction xs)
  case Nil
  show ?case by simp
next
  case (Cons x xs)
  have "length (filter P xs) \<noteq> Suc (length xs)"
    using length_filter_le [of P xs] by arith
  with Cons show ?case by simp
qed

lemma sum_list_full:
  "\<forall>x \<in> set xs. f x \<le> (k::nat) \<Longrightarrow>
   (sum_list (map f xs) = length xs * k) = (\<forall>x \<in> set xs. f x = k)"
proof (induction xs)
  case Nil
  show ?case by simp
next
  case (Cons x xs)
  have "sum_list (map f xs) \<le> length xs * k"
    using Cons.prems by (induction xs) (auto intro: add_mono)
  moreover have "f x \<le> k" using Cons.prems by simp
  ultimately show ?case using Cons by auto
qed

lemma found_count_full:
  "(found_count st = length (urls st) * length (search_texts st)) = every_pair_found st"
proof -
  have "(sum_list (map (\<lambda>url. length (filter (\<lambda>t. found_time st url t \<noteq> None)
          (search_texts st))) (urls st))
        = length (urls st) * length (search_texts st))
      = (\<forall>url \<in> set (urls st). length (filter (\<lambda>t. found_time st url t \<noteq> None)
          (search_texts st)) = length (search_texts st))"
    by (rule sum_list_full) simp
  then show ?thesis
    by (simp add: found_count_def every_pair_found_def length_filter_all)
qed

lemma all_items_found_configured:
  "configured st \<Longrightarrow> all_items_found st = Inr (every_pair_found st)"
  by (simp add: all_items_found_def get_completion_status_configured found_count_full)

lemma final_lines_configured:
  "\<forall>t \<in> set terms. has_keys st url t \<Longrightarrow>
   final_lines w st url terms = Inr (concat (map (summary_line w st url) terms))"
proof (induction terms)
  case Nil
  show ?case by simp
next
  case (Cons t terms)
  from Cons.prems obtain d v where d: "found_items st url = Some d" "d t = Some v"
    by (auto simp: has_keys_def split: option.splits)
  with Cons show ?case
    by (cases v) (simp_all add: summary_line_def found_time_def)
qed

lemma final_sites_configured:
  "\<forall>url \<in> set us. \<forall>t \<in> set (search_texts st). has_keys st url t \<Longrightarrow>
   final_sites w st us = Inr (concat (map (summary_site w st) us))"
  by (induction us) (simp_all add: final_lines_configured summary_site_def)

lemma final_message_configured:
  "configured st \<Longrightarrow>
   final_message w st n =
     Inr (''Site Monitor has completed its mission successfully!'' @ newline @ newline
          @ ''All '' @ str_nat n @ '' search combinations have been found:''
          @ newline @ newline
          @ concat (map (summary_site w st) (urls st))
          @ ''The monitor will now stop to avoid spam notifications.'')"
  by (simp add: final_message_def final_sites_configured configured_def)

lemma in_concat_map: "x \<in> set xs \<Longrightarrow> \<exists>p q. concat (map f xs) = p @ f x @ q"
proof -
  assume "x \<in> set xs"
  then obtain ys zs where "xs = ys @ x # zs" by (auto dest: split_list)
  then have "concat (map f xs) = concat (map f ys) @ f x @ concat (map f zs)" by simp
  then show ?thesis by blast
qed

lemma summary_line_in_message:
  assumes "configured st" and "url \<in> set (urls st)" and "t \<in> set (search_texts st)"
    and "final_message w st n = Inr message"
  shows "sublist (summary_line w st url t) message"
proof -
  define head where "head = ''Site Monitor has completed its mission successfully!'' @ newline
          @ newline @ ''All '' @ str_nat n @ '' search combinations have been found:''
          @ newline @ newline"
  define foot where "foot = ''The monitor will now stop to avoid spam notifications.''"
  define site_head where "site_head = ''Site: '' @ url @ '':'' @ newline"
  from in_concat_map [OF assms(3), of "summary_line w st url"] obtain p1 q1 where
    lines: "concat (map (summary_line w st url) (search_texts st))
      = p1 @ summary_line w st url t @ q1"
    by blast
  from in_concat_map [OF assms(2), of "summary_site w st"] obtain p2 q2 where
    sites: "concat (map (summary_site w st) (urls st)) = p2 @ summary_site w st url @ q2"
    by blast
  have site: "summary_site w st url = site_head @ p1 @ summary_line w st url t @ q1 @ newline"
    unfolding summary_site_def site_head_def lines by simp
  have "message = head @ concat (map (summary_site w st) (urls st)) @ foot"
    using assms(4) unfolding final_message_configured [OF assms(1)] head_def foot_def by simp
  then have "message = (head @ p2 @ site_head @ p1) @ summary_line w st url t
      @ (q1 @ newline @ q2 @ foot)"
    unfolding sites site by simp
  then show ?thesis
    unfolding sublist_def by blast
qed

lemma monitor_pass_configured:
  assumes "configured st" and "urls st \<noteq> []"
  shows "monitor_pass w st =
     (fst (run_check w st),
      if every_pair_found (fst (run_check w st)) \<and> auto_stop_on_found st
      then (case final_message w (fst (run_check w st))
                  (length (urls st) * length (search_texts st)) of
              Inr message \<Rightarrow> Some message | Inl e \<Rightarrow> None)
      else None)"
proof -
  define st1 where "st1 = fst (run_check w st)"
  have a: "advances st st1"
    unfolding st1_def using run_check_step [of st w] by (simp add: cycle_step_def)
  then have c: "configured st1" using assms(1) by (rule advances_configured)
  from a have f: "urls st1 = urls st" "search_texts st1 = search_texts st"
    "auto_stop_on_found st1 = auto_stop_on_found st"
    by (auto simp: advances_def)
  obtain b where rc: "run_check w st = (st1, Inr b)"
    using run_check_result [OF assms(2), of w] unfolding st1_def by blast
  show ?thesis
    unfolding st1_def [symmetric]
    by (simp add: monitor_pass_def rc get_completion_status_configured [OF c]
        all_items_found_configured [OF c] f final_message_configured [OF c])
qed

lemma monitor_pass_exit:
  assumes "configured st" and "urls st \<noteq> []"
    and "every_pair_found (fst (run_check w st))" and "auto_stop_on_found st"
  shows "\<exists>message. monitor_pass w st = (fst (run_check w st), Some message) \<and>
     final_message w (fst (run_check w st)) (length (urls st) * length (search_texts st))
       = Inr message"
proof -
  have "advances st (fst (run_check w st))"
    using run_check_step [of st w] by (simp add: cycle_step_def)
  then have "configured (fst (run_check w st))" using assms(1) by (rule advances_configured)
  from final_message_configured [OF this] assms(3,4) show ?thesis
    by (simp add: monitor_pass_configured [OF assms(1,2)])
qed

lemma monitor_pass_continue:
  assumes "configured st" and "urls st \<noteq> []"
    and "\<not> (every_pair_found (fst (run_check w st)) \<and> auto_stop_on_found st)"
  shows "monitor_pass w st = (fst (run_check w st), None)"
  using assms(3) by (auto simp: monitor_pass_configured [OF assms(1,2)])

lemma run_check_keeps:
  "configured st \<Longrightarrow> configured (fst (run_check w st))"
  "urls (fst (run_check w st)) = urls st"
  "search_texts (fst (run_check w st)) = search_texts st"
  "auto_stop_on_found (fst (run_check w st)) = auto_stop_on_found st"
  using run_check_step [of st w]
  by (auto simp: cycle_step_def advances_def intro: advances_configured)

lemma start_monitoring_exit:
  "configured st \<Longrightarrow> urls st \<noteq> [] \<Longrightarrow>
   is_exit (start_monitoring st ws) =
     (auto_stop_on_found st \<and>
      (\<exists>n<length ws. every_pair_found (run_checks st (take (Suc n) ws))))"
proof (induction ws arbitrary: st)
  case Nil
  show ?case by simp
next
  case (Cons w ws)
  define st1 where "st1 = fst (run_check w st)"
  have c1: "configured st1" and a1: "auto_stop_on_found st1 = auto_stop_on_found st"
    and u1: "urls st1 \<noteq> []"
    unfolding st1_def using Cons.prems by (simp_all add: run_check_keeps)
  have split: "(\<exists>n<length (w # ws). every_pair_found (run_checks st (take (Suc n) (w # ws))))
      = (every_pair_found st1 \<or>
         (\<exists>n<length ws. every_pair_found (run_checks st1 (take (Suc n) ws))))"
    by (auto simp: st1_def less_Suc_eq_0_disj)
  show ?case
  proof (cases "every_pair_found st1 \<and> auto_stop_on_found st")
    case True
    with monitor_pass_exit [OF Cons.prems, of w] obtain message where
      "monitor_pass w st = (st1, Some message)"
      by (auto simp: st1_def)
    with True show ?thesis
      unfolding split by simp
  next
    case False
    then have "monitor_pass w st = (st1, None)"
      unfolding st1_def by (intro monitor_pass_continue [OF Cons.prems]) simp
    then have "start_monitoring st (w # ws) = start_monitoring st1 ws" by simp
    with Cons.IH [OF c1 u1] False show ?thesis
      unfolding split a1 by auto
  qed
qed

lemma start_monitoring_final:
  "configured st \<Longrightarrow> urls st \<noteq> [] \<Longrightarrow> is_exit (start_monitoring st ws) \<Longrightarrow>
   \<exists>n<length ws.
     final_state (start_monitoring st ws) = run_checks st (take (Suc n) ws) \<and>
     every_pair_found (run_checks st (take (Suc n) ws)) \<and>
     (\<forall>m<n. \<not> every_pair_found (run_checks st (take (Suc m) ws))) \<and>
     final_message (ws ! n) (run_checks st (take (Suc n) ws))
       (length (urls st) * length (search_texts st))
       = Inr (summary (start_monitoring st ws))"
proof (induction ws arbitrary: st)
  case Nil
  then show ?case by simp
next
  case (Cons w ws)
  define st1 where "st1 = fst (run_check w st)"
  have c1: "configured st1" and a1: "auto_stop_on_found st1 = auto_stop_on_found st"
    and f1: "urls st1 = urls st" "search_texts st1 = search_texts st"
    unfolding st1_def using Cons.prems(1) by (simp_all add: run_check_keeps)
  have u1: "urls st1 \<noteq> []" using Cons.prems(2) by (simp add: f1)
  have auto: "auto_stop_on_found st"
    using start_monitoring_exit [OF Cons.prems(1,2), of "w # ws"] Cons.prems(3) by blast
  show ?case
  proof (cases "every_pair_found st1")
    case True
    with monitor_pass_exit [OF Cons.prems(1,2), of w] auto obtain message where
      m: "monitor_pass w st = (st1, Some message)"
      "final_message w st1 (length (urls st) * length (search_texts st)) = Inr message"
      by (auto simp: st1_def)
    have "0 < length (w # ws) \<and>
     final_state (start_monitoring st (w # ws)) = run_checks st (take (Suc 0) (w # ws)) \<and>
     every_pair_found (run_checks st (take (Suc 0) (w # ws))) \<and>
     (\<forall>m<0. \<not> every_pair_found (run_checks st (take (Suc m) (w # ws)))) \<and>
     final_message ((w # ws) ! 0) (run_checks st (take (Suc 0) (w # ws)))
       (length (urls st) * length (search_texts st))
       = Inr (summary (start_monitoring st (w # ws)))"
      using m True by (simp add: st1_def)
    then show ?thesis by blast
  next
    case False
    then have "monitor_pass w st = (st1, None)"
      unfolding st1_def by (intro monitor_pass_continue [OF Cons.prems(1,2)]) simp
    then have eq: "start_monitoring st (w # ws) = start_monitoring st1 ws" by simp
    with Cons.prems(3) have "is_exit (start_monitoring st1 ws)" by simp
    from Cons.IH [OF c1 u1 this] obtain n where n: "n < length ws"
      "final_state (start_monitoring st1 ws) = run_checks st1 (take (Suc n) ws)"
      "every_pair_found (run_checks st1 (take (Suc n) ws))"
      "\<forall>m<n. \<not> every_pair_found (run_checks st1 (take (Suc m) ws))"
      "final_message (ws ! n) (run_checks st1 (take (Suc n) ws))
         (length (urls st) * length (search_texts st))
         = Inr (summary (start_monitoring st1 ws))"
      unfolding f1 by blast
    have before: "\<not> every_pair_found (run_checks st (take (Suc m) (w # ws)))" if "m < Suc n" for m
    proof (cases m)
      case 0
      with False show ?thesis by (simp add: st1_def)
    next
      case (Suc k)
      with that n(4) show ?thesis by (simp add: st1_def)
    qed
    have "Suc n < length (w # ws) \<and>
     final_state (start_monitoring st (w # ws)) = run_checks st (take (Suc (Suc n)) (w # ws)) \<and>
     every_pair_found (run_checks st (take (Suc (Suc n)) (w # ws))) \<and>
     (\<forall>m<Suc n. \<not> every_pair_found (run_checks st (take (Suc m) (w # ws)))) \<and>
     final_message ((w # ws) ! Suc n) (run_checks st (take (Suc (Suc n)) (w # ws)))
       (length (urls st) * length (search_texts st))
       = Inr (summary (start_monitoring st (w # ws)))"
      using n(1,2,3,5) before unfolding eq by (simp add: st1_def)
    then show ?thesis by blast
  qed
qed

text \<open>
  C5, as amended. With the ledger as \<^verbatim>\<open>__init__\<close> configures it, for at least one
  URL, the monitor loop ends with \<^verbatim>\<open>sys.exit(0)\<close> exactly when auto-stop is
  enabled and, after one of the cycles, every pair of a URL and a search term is found,
  that is, has a time in \<^verbatim>\<open>found_items\<close>, whether or not a notification was
  dispatched for it. The loop ends after the first such cycle, and the summary handed to
  the notification sender is the final message of the state then: it has a "[FOUND]"
  line with the time for every pair.
\<close>

theorem auto_stop_when_every_pair_found:
  assumes "configured st" and "urls st \<noteq> []"
  shows "(is_exit (start_monitoring st ws) =
           (auto_stop_on_found st \<and>
            (\<exists>n<length ws. every_pair_found (run_checks st (take (Suc n) ws))))) \<and>
         (is_exit (start_monitoring st ws) \<longrightarrow>
           (\<exists>n<length ws.
              final_state (start_monitoring st ws) = run_checks st (take (Suc n) ws) \<and>
              every_pair_found (run_checks st (take (Suc n) ws)) \<and>
              (\<forall>m<n. \<not> every_pair_found (run_checks st (take (Suc m) ws))) \<and>
              final_message (ws ! n) (run_checks st (take (Suc n) ws))
                (length (urls st) * length (search_texts st))
                = Inr (summary (start_monitoring st ws)) \<and>
              (\<forall>url \<in> set (urls st). \<forall>t \<in> set (search_texts st).
                 found_time (run_checks st (take (Suc n) ws)) url t \<noteq> None \<and>
                 sublist (summary_line (ws ! n) (run_checks st (take (Suc n) ws)) url t)
                   (summary (start_monitoring st ws)))))"
proof (intro conjI impI)
  show "is_exit (start_monitoring st ws) =
           (auto_stop_on_found st \<and>
            (\<exists>n<length ws. every_pair_found (run_checks st (take (Suc n) ws))))"
    using assms by (rule start_monitoring_exit)
next
  assume "is_exit (start_monitoring st ws)"
  from start_monitoring_final [OF assms this] obtain n where n: "n < length ws"
    "final_state (start_monitoring st ws) = run_checks st (take (Suc n) ws)"
    "every_pair_found (run_checks st (take (Suc n) ws))"
    "\<forall>m<n. \<not> every_pair_found (run_checks st (take (Suc m) ws))"
    "final_message (ws ! n) (run_checks st (take (Suc n) ws))
       (length (urls st) * length (search_texts st))
       = Inr (summary (start_monitoring st ws))"
    by blast
  define st' where "st' = run_checks st (take (Suc n) ws)"
  have a: "advances st st'" unfolding st'_def by (rule run_checks_advances)
  then have c: "configured st'" using assms(1) by (rule advances_configured)
  from a have f: "urls st' = urls st" "search_texts st' = search_texts st"
    by (auto simp: advances_def)
  have "found_time st' url t \<noteq> None \<and>
      sublist (summary_line (ws ! n) st' url t) (summary (start_monitoring st ws))"
    if "url \<in> set (urls st)" "t \<in> set (search_texts st)" for url t
  proof
    show "found_time st' url t \<noteq> None"
      using n(3) that unfolding st'_def [symmetric] by (simp add: every_pair_found_def f)
    show "sublist (summary_line (ws ! n) st' url t) (summary (start_monitoring st ws))"
      using summary_line_in_message [OF c, of url t "ws ! n"] that n(5)
      unfolding st'_def [symmetric] by (simp add: f)
  qed
  then have "\<forall>url \<in> set (urls st). \<forall>t \<in> set (search_texts st).
                 found_time (run_checks st (take (Suc n) ws)) url t \<noteq> None \<and>
                 sublist (summary_line (ws ! n) (run_checks st (take (Suc n) ws)) url t)
                   (summary (start_monitoring st ws))"
    unfolding st'_def by blast
  with n show "\<exists>n<length ws.
              final_state (start_monitoring st ws) = run_checks st (take (Suc n) ws) \<and>
              every_pair_found (run_checks st (take (Suc n) ws)) \<and>
              (\<forall>m<n. \<not> every_pair_found (run_checks st (take (Suc m) ws))) \<and>
              final_message (ws ! n) (run_checks st (take (Suc n) ws))
                (length (urls st) * length (search_texts st))
                = Inr (summary (start_monitoring st ws)) \<and>
              (\<forall>url \<in> set (urls st). \<forall>t \<in> set (search_texts st).
                 found_time (run_checks st (take (Suc n) ws)) url t \<noteq> None \<and>
                 sublist (summary_line (ws ! n) (run_checks st (take (Suc n) ws)) url t)
                   (summary (start_monitoring st ws)))"
    by blast
qed

lemma example_configured: "configured example_monitor"
  unfolding example_monitor_def by (rule init_configured)

lemma example_urls: "urls example_monitor \<noteq> []"
  by (simp add: example_monitor_fields)

lemma example_first_cycle:
  "run_checks example_monitor (take (Suc 0) [example_world s]) = dispatched_monitor (s = 200)"
  by (simp add: example_cycle)

lemma dispatched_every_pair_found: "every_pair_found (dispatched_monitor ok)"
  by (simp add: every_pair_found_def dispatched_monitor_fields)

theorem auto_stop_when_every_pair_found_witness:
  "is_exit (start_monitoring example_monitor [example_world 200]) \<and>
   final_state (start_monitoring example_monitor [example_world 200]) = dispatched_monitor True \<and>
   sublist (''  [FOUND] DJI (found at 7)'' @ newline)
     (summary (start_monitoring example_monitor [example_world 200]))"
proof -
  define ws where "ws = [example_world 200]"
  have found: "every_pair_found (run_checks example_monitor (take (Suc 0) ws))"
    unfolding ws_def example_first_cycle by (rule dispatched_every_pair_found)
  have auto: "auto_stop_on_found example_monitor"
    by (simp add: example_monitor_fields)
  note t = auto_stop_when_every_pair_found [OF example_configured example_urls, of ws]
  have exit: "is_exit (start_monitoring example_monitor ws)"
    using t auto found by (auto simp: ws_def)
  with t obtain n where n: "n < length ws"
    "final_state (start_monitoring example_monitor ws)
       = run_checks example_monitor (take (Suc n) ws)"
    "\<forall>url \<in> set (urls example_monitor). \<forall>t \<in> set (search_texts example_monitor).
       sublist (summary_line (ws ! n) (run_checks example_monitor (take (Suc n) ws)) url t)
         (summary (start_monitoring example_monitor ws))"
    by blast
  from n(1) have n0: "n = 0" by (simp add: ws_def)
  have st: "run_checks example_monitor (take (Suc n) ws) = dispatched_monitor True"
    unfolding n0 ws_def example_first_cycle by simp
  have "summary_line (ws ! n) (dispatched_monitor True) ''http://a'' ''DJI''
      = ''  [FOUND] DJI (found at 7)'' @ newline"
    by (simp add: n0 ws_def summary_line_def dispatched_monitor_fields example_world_fields
        char_of_def bit_0)
  with n(2,3) exit show ?thesis
    unfolding st ws_def [symmetric] by (simp add: example_monitor_fields)
qed

text \<open>
  The claim as it is written fails: with a Pushover service that answers 500 the only pair
  is found and never notified, and the loop ends with \<^verbatim>\<open>sys.exit(0)\<close> all the same.
\<close>

theorem exit_without_notification:
  "is_exit (start_monitoring example_monitor [example_world 500]) \<and>
   \<not> notified (final_state (start_monitoring example_monitor [example_world 500]))
       ''http://a'' ''DJI''"
proof -
  have found: "every_pair_found (fst (run_check (example_world 500) example_monitor))"
    by (simp add: example_cycle dispatched_every_pair_found)
  have auto: "auto_stop_on_found example_monitor"
    by (simp add: example_monitor_fields)
  from monitor_pass_exit [OF example_configured example_urls found auto] obtain message where
    "monitor_pass (example_world 500) example_monitor = (dispatched_monitor False, Some message)"
    by (auto simp: example_cycle)
  then show ?thesis
    by (simp add: dispatched_monitor_fields)
qed

subsection \<open>The matcher\<close>

lemma str_in_sublist: "str_in a b = sublist a b"
  by (induction b) (simp_all add: sublist_Cons_right)

lemma is_found_found_time:
  "found_items st url = Some d \<Longrightarrow> is_found d t = (found_time st url t \<noteq> None)"
  by (auto simp: is_found_def found_time_def split: option.splits)

lemma commit_found_decides:
  "commit_found s url t ts = Inr (s', committed) \<Longrightarrow> committed = (found_time s url t = None)"
  by (auto simp: commit_found_def is_found_def found_time_def split: option.splits if_splits)

lemma check_for_patterns_report:
  assumes "html \<noteq> []"
    and "match_terms w url (normalized_page (parse_html w html))
           (search_texts_to_check st specific) st [] = (st', Inr found_texts)"
  shows "check_for_patterns w st (Some html) url specific =
           (st', report_of w (parse_html w html) found_texts url)"
  using assms by (simp add: check_for_patterns_def Let_def report_of_def split: sum.splits)

text \<open>
  C4, as amended. For a URL that has its dictionary in the ledger and page content that
  is not empty, the loop over the terms ends, and a term is among the newly found ones
  exactly when it is one of the terms to check, its normal form is a substring of the
  normalized concatenation of the collected content of the page, and the pair was not
  found when the check began. The newly found terms get the time of their commit, every
  other term keeps what it had. \<^verbatim>\<open>check_for_patterns\<close> reports false when no term
  is newly found, and true with the details when there is one and the extraction of the
  details returns. The call is taken alone, with no other task writing the ledger
  meanwhile; the guarded write itself commits exactly when the pair is not found in the
  ledger as it is under its lock.
\<close>

theorem matcher_reports_new_terms:
  assumes "found_items st url = Some d" and "html \<noteq> []"
  shows "\<exists>st' found_texts.
     match_terms w url (normalized_page (parse_html w html))
       (search_texts_to_check st specific) st [] = (st', Inr found_texts) \<and>
     (found_texts = [] \<longrightarrow>
        check_for_patterns w st (Some html) url specific = (st', Inr (False, None))) \<and>
     (\<forall>product_info.
        found_texts \<noteq> [] \<and>
        extract_product_details (urljoin w) (parse_html w html) found_texts url
          = Inr product_info \<longrightarrow>
        check_for_patterns w st (Some html) url specific
          = (st', Inr (True, Some product_info))) \<and>
     (\<forall>t. (t \<in> set found_texts) =
        (t \<in> set (search_texts_to_check st specific) \<and>
         sublist (normalize_text t) (normalized_page (parse_html w html)) \<and>
         found_time st url t = None)) \<and>
     (\<forall>t. found_time st' url t =
        (if t \<in> set found_texts then Some (now w url t) else found_time st url t)) \<and>
     (\<forall>s t ts s' committed. commit_found s url t ts = Inr (s', committed) \<longrightarrow>
        committed = (found_time s url t = None))"
proof -
  define content where "content = normalized_page (parse_html w html)"
  define terms where "terms = search_texts_to_check st specific"
  from match_terms_closed [OF assms(1), of w content terms "[]"] obtain st' found_texts where
    m: "match_terms w url content terms st [] = (st', Inr found_texts)"
    and texts: "set found_texts =
       {t \<in> set terms. str_in (normalize_text t) content \<and> \<not> is_found d t}"
    and dict: "found_items st' url =
       Some (\<lambda>t. if t \<in> set terms \<and> str_in (normalize_text t) content \<and> \<not> is_found d t
                 then Some (Some (now w url t)) else d t)"
    by auto
  note c = check_for_patterns_report [OF assms(2) m [unfolded content_def terms_def]]
  have none: "found_texts = [] \<longrightarrow>
        check_for_patterns w st (Some html) url specific = (st', Inr (False, None))"
    by (simp add: c report_of_def)
  have some: "\<forall>product_info.
        found_texts \<noteq> [] \<and>
        extract_product_details (urljoin w) (parse_html w html) found_texts url
          = Inr product_info \<longrightarrow>
        check_for_patterns w st (Some html) url specific
          = (st', Inr (True, Some product_info))"
    by (simp add: c report_of_def)
  have iff: "(t \<in> set found_texts) =
        (t \<in> set terms \<and> sublist (normalize_text t) content \<and> found_time st url t = None)" for t
    using texts is_found_found_time [OF assms(1), of t] by (auto simp: str_in_sublist)
  have new: "(t \<in> set terms \<and> str_in (normalize_text t) content \<and> \<not> is_found d t)
      = (t \<in> set found_texts)" for t
    using texts by auto
  have dict': "found_items st' url =
       Some (\<lambda>t. if t \<in> set found_texts then Some (Some (now w url t)) else d t)"
    unfolding dict new ..
  have time: "found_time st' url t =
        (if t \<in> set found_texts then Some (now w url t) else found_time st url t)" for t
    by (simp add: found_time_def dict' assms(1))
  have decides: "\<forall>s t ts s' committed. commit_found s url t ts = Inr (s', committed) \<longrightarrow>
        committed = (found_time s url t = None)"
    using commit_found_decides by blast
  from m iff time have "match_terms w url content terms st [] = (st', Inr found_texts) \<and>
     (\<forall>t. (t \<in> set found_texts) =
        (t \<in> set terms \<and> sublist (normalize_text t) content \<and> found_time st url t = None)) \<and>
     (\<forall>t. found_time st' url t =
        (if t \<in> set found_texts then Some (now w url t) else found_time st url t))"
    by blast
  with none some decides show ?thesis
    unfolding content_def terms_def by blast
qed

theorem matcher_reports_new_terms_witness:
  "\<exists>st'. check_for_patterns (example_world 200) example_monitor (Some ''<a href=/p>New DJI!</a>'')
       ''http://a'' None = (st', Inr (True, Some [example_info])) \<and>
     found_time st' ''http://a'' ''DJI'' = Some 7"
proof -
  have d: "found_items example_monitor ''http://a'' = Some [''DJI'' \<mapsto> None]"
    by (simp add: example_monitor_fields)
  have html: "''<a href=/p>New DJI!</a>'' \<noteq> []" by simp
  from matcher_reports_new_terms [OF d html, of "example_world 200" None]
  obtain st' found_texts where
    m: "match_terms (example_world 200) ''http://a''
         (normalized_page (parse_html (example_world 200) ''<a href=/p>New DJI!</a>''))
         (search_texts_to_check example_monitor None) example_monitor [] = (st', Inr found_texts)"
    and c: "\<forall>product_info.
        found_texts \<noteq> [] \<and>
        extract_product_details (urljoin (example_world 200))
          (parse_html (example_world 200) ''<a href=/p>New DJI!</a>'') found_texts ''http://a''
          = Inr product_info \<longrightarrow>
        check_for_patterns (example_world 200) example_monitor
          (Some ''<a href=/p>New DJI!</a>'') ''http://a'' None
          = (st', Inr (True, Some product_info))"
    and time: "\<forall>t. found_time st' ''http://a'' t =
        (if t \<in> set found_texts then Some (now (example_world 200) ''http://a'' t)
         else found_time example_monitor ''http://a'' t)"
    by blast
  from m have texts: "found_texts = [''DJI'']"
    by (simp add: example_world_fields example_content search_texts_to_check_def
        example_monitor_fields example_match del: match_terms.simps)
  have "extract_product_details (urljoin (example_world 200))
          (parse_html (example_world 200) ''<a href=/p>New DJI!</a>'') [''DJI''] ''http://a''
          = Inr [example_info]"
    by (simp add: example_world_fields example_details del: extract_product_details.simps)
  with c texts have "check_for_patterns (example_world 200) example_monitor
          (Some ''<a href=/p>New DJI!</a>'') ''http://a'' None
          = (st', Inr (True, Some [example_info]))"
    by simp
  moreover from time texts have "found_time st' ''http://a'' ''DJI'' = Some 7"
    by (simp add: example_world_fields)
  ultimately show ?thesis by blast
qed

lemma bad_href_content: "normalized_page bad_href_soup = ''new dji http bad''"
  by (simp add: normalized_page_def bad_href_soup_def collect_searchable_content_def if_true_def
      normalize_eval)

lemma bad_href_details:
  "extract_product_details (urljoin bad_href_world) bad_href_soup [''DJI''] ''http://a''
     = Inl ValueError"
  by (simp add: details_of_term_def link_details_def bad_href_soup_def link_info_def
      full_url_of_def term_in_text_def strip_def char_eval bad_href_world_def)

lemma bad_href_check:
  "check_for_patterns bad_href_world example_monitor (Some ''<a href=http://[bad>New DJI!</a>'')
     ''http://a'' None = (committed_monitor, Inl ValueError)"
proof -
  have m: "match_terms bad_href_world ''http://a'' ''new dji http bad'' [''DJI''] example_monitor []
      = (committed_monitor, Inr [''DJI''])"
    by (simp add: bad_href_world_def example_term example_monitor_fields commit_found_def
        is_found_def committed_monitor_def)
  have p: "parse_html bad_href_world ''<a href=http://[bad>New DJI!</a>'' = bad_href_soup"
    by (simp add: bad_href_world_def)
  show ?thesis
    by (simp add: check_for_patterns_def p bad_href_content search_texts_to_check_def
        example_monitor_fields m bad_href_details Let_def
        del: match_terms.simps extract_product_details.simps)
qed

text \<open>
  The claim as it is written fails in three ways. On empty content nothing is reported,
  though the normal form of the term \<open>!\<close> is the empty string, a substring of the normal
  form of every page, and the pair is not found. For a URL that the ledger does not have,
  the first term raises \<^verbatim>\<open>KeyError\<close>, though the term is in the page and the pair is
  not found. And when the reference of the link that holds the term is malformed,
  \<^verbatim>\<open>urljoin\<close> raises \<^verbatim>\<open>ValueError\<close> after the commit, and the call returns no
  report of the newly found term.
\<close>

theorem matcher_report_missing:
  "check_for_patterns (example_world 200) punctuation_monitor (Some []) ''http://a'' None =
     (punctuation_monitor, Inr (False, None)) \<and>
   ''!'' \<in> set (search_texts_to_check punctuation_monitor None) \<and>
   sublist (normalize_text ''!'') (normalized_page (parse_html (example_world 200) [])) \<and>
   found_time punctuation_monitor ''http://a'' ''!'' = None \<and>
   check_for_patterns (example_world 200) example_monitor (Some ''<a href=/p>New DJI!</a>'')
     ''http://c'' None = (example_monitor, Inl KeyError) \<and>
   ''DJI'' \<in> set (search_texts_to_check example_monitor None) \<and>
   sublist (normalize_text ''DJI'')
     (normalized_page (parse_html (example_world 200) ''<a href=/p>New DJI!</a>'')) \<and>
   found_time example_monitor ''http://c'' ''DJI'' = None \<and>
   check_for_patterns bad_href_world example_monitor (Some ''<a href=http://[bad>New DJI!</a>'')
     ''http://a'' None = (committed_monitor, Inl ValueError) \<and>
   sublist (normalize_text ''DJI'')
     (normalized_page (parse_html bad_href_world ''<a href=http://[bad>New DJI!</a>'')) \<and>
   found_time example_monitor ''http://a'' ''DJI'' = None"
proof -
  have empty: "check_for_patterns (example_world 200) punctuation_monitor (Some []) ''http://a'' None =
     (punctuation_monitor, Inr (False, None))"
    by (simp add: check_for_patterns_def)
  have e2: "''!'' \<in> set (search_texts_to_check punctuation_monitor None)"
    by (simp add: search_texts_to_check_def punctuation_monitor_def init_fields)
  have e3: "sublist (normalize_text ''!'') (normalized_page (parse_html (example_world 200) []))"
    by (simp add: normalize_eval)
  have e4: "found_time punctuation_monitor ''http://a'' ''!'' = None"
    by (simp add: punctuation_monitor_def init_found_time)
  have no_dict: "found_items example_monitor ''http://c'' = None"
    by (simp add: example_monitor_def init_found_items)
  have k1: "check_for_patterns (example_world 200) example_monitor (Some ''<a href=/p>New DJI!</a>'')
     ''http://c'' None = (example_monitor, Inl KeyError)"
    by (simp add: check_for_patterns_def search_texts_to_check_def example_monitor_fields
        no_dict Let_def)
  have k2: "''DJI'' \<in> set (search_texts_to_check example_monitor None)"
    by (simp add: search_texts_to_check_def example_monitor_fields)
  have k3: "sublist (normalize_text ''DJI'')
     (normalized_page (parse_html (example_world 200) ''<a href=/p>New DJI!</a>''))"
    by (simp add: example_world_fields example_content example_term str_in_sublist [symmetric])
  have k4: "found_time example_monitor ''http://c'' ''DJI'' = None"
    by (simp add: example_monitor_def init_found_time)
  have v2: "sublist (normalize_text ''DJI'')
     (normalized_page (parse_html bad_href_world ''<a href=http://[bad>New DJI!</a>''))"
    by (simp add: bad_href_world_def bad_href_content example_term str_in_sublist [symmetric])
  have v3: "found_time example_monitor ''http://a'' ''DJI'' = None"
    by (simp add: example_monitor_def init_found_time)
  from empty e2 e3 e4 k1 k2 k3 k4 bad_href_check v2 v3 show ?thesis
    by (intro conjI)
qed

subsection \<open>A target that fails\<close>

lemma fetch_attempts_timeouts:
  "\<forall>n. http_get w url n = Timeout \<Longrightarrow> fetch_attempts w url attempt left = None"
  by (induction left arbitrary: attempt) simp_all

lemma fetch_attempts_same:
  "\<forall>n. http_get w' url n = http_get w url n \<Longrightarrow>
   fetch_attempts w' url attempt left = fetch_attempts w url attempt left"
  by (induction left arbitrary: attempt) (simp_all split: http_result.splits)

lemma fetch_page_same: "same_world_off x w w' \<Longrightarrow> url \<noteq> x \<Longrightarrow> fetch_page w' url = fetch_page w url"
  by (simp add: fetch_page_def same_world_off_def fetch_attempts_same)

lemma check_single_url_no_content:
  "\<not> truthy (fetch_page w x) \<Longrightarrow> check_single_url w st x = (st, Inr [])"
  by (simp add: check_single_url_def)

lemma same_ledger_off_refl: "same_ledger_off x s s"
  by (simp add: same_ledger_off_def)

lemma same_ledger_off_sym: "same_ledger_off x s s' \<Longrightarrow> same_ledger_off x s' s"
  by (simp add: same_ledger_off_def)

lemma same_ledger_off_trans:
  "same_ledger_off x a b \<Longrightarrow> same_ledger_off x b c \<Longrightarrow> same_ledger_off x a c"
  by (simp add: same_ledger_off_def)

lemma match_terms_lockstep:
  assumes "now w' = now w"
  shows "found_items s' url = found_items s url \<Longrightarrow>
     match_terms w url content terms s acc = (s1, r) \<Longrightarrow>
     match_terms w' url content terms s' acc = (s1', r') \<Longrightarrow>
     r' = r \<and> found_items s1' url = found_items s1 url"
proof (induction terms arbitrary: s s' acc)
  case Nil
  then show ?case by simp
next
  case (Cons t terms)
  show ?case
  proof (cases "found_items s url")
    case None
    with Cons.prems show ?thesis by simp
  next
    case (Some d)
    then have Some': "found_items s' url = Some d" using Cons.prems(1) by simp
    show ?thesis
    proof (cases "\<not> is_found d t \<and> str_in (normalize_text t) content")
      case False
      with Cons.prems Some Some'
      have "match_terms w url content terms s acc = (s1, r)"
        "match_terms w' url content terms s' acc = (s1', r')"
        by (auto split: if_splits)
      from Cons.IH [OF Cons.prems(1) this] show ?thesis .
    next
      case True
      define sa where "sa = s\<lparr>found_items := (found_items s)(url \<mapsto> d(t \<mapsto> Some (now w url t))),
             history := history s @ [Committed url t (now w url t)]\<rparr>"
      define sa' where "sa' = s'\<lparr>found_items := (found_items s')(url \<mapsto> d(t \<mapsto> Some (now w url t))),
             history := history s' @ [Committed url t (now w url t)]\<rparr>"
      have c: "commit_found s url t (now w url t) = Inr (sa, True)"
        using commit_found_True [OF Some] True by (simp add: sa_def)
      have c': "commit_found s' url t (now w' url t) = Inr (sa', True)"
        using commit_found_True [OF Some'] True by (simp add: sa'_def assms)
      from Cons.prems(2) Some True c
      have m: "match_terms w url content terms sa (acc @ [t]) = (s1, r)" by simp
      from Cons.prems(3) Some' True c'
      have m': "match_terms w' url content terms sa' (acc @ [t]) = (s1', r')" by simp
      have "found_items sa' url = found_items sa url" by (simp add: sa_def sa'_def)
      from Cons.IH [OF this m m'] show ?thesis .
    qed
  qed
qed

lemma check_for_patterns_lockstep:
  assumes "same_world_off x w w'"
    and "found_items s' url = found_items s url" and "search_texts s' = search_texts s"
    and "check_for_patterns w s html url specific = (s1, r)"
    and "check_for_patterns w' s' html url specific = (s1', r')"
  shows "r' = r \<and> found_items s1' url = found_items s1 url"
proof (cases "html = None \<or> html = Some []")
  case True
  with assms show ?thesis by (auto simp: check_for_patterns_def)
next
  case False
  then obtain h where h: "html = Some h" "h \<noteq> []" by auto
  from assms(1) have same: "parse_html w' = parse_html w" "urljoin w' = urljoin w"
    "now w' = now w"
    by (auto simp: same_world_off_def)
  define content where "content = normalized_page (parse_html w h)"
  define terms where "terms = search_texts_to_check s specific"
  have terms': "search_texts_to_check s' specific = terms"
    by (simp add: terms_def search_texts_to_check_def assms(3) split: option.splits)
  obtain sa ra where m: "match_terms w url content terms s [] = (sa, ra)"
    by (cases "match_terms w url content terms s []")
  obtain sa' ra' where m': "match_terms w' url content terms s' [] = (sa', ra')"
    by (cases "match_terms w' url content terms s' []")
  from match_terms_lockstep [OF same(3) assms(2) m m']
  have eq: "ra' = ra" "found_items sa' url = found_items sa url" by auto
  have report: "report_of w' (parse_html w h) ft url = report_of w (parse_html w h) ft url" for ft
    by (simp add: report_of_def same)
  from assms(4) h m have r: "s1 = sa"
    "r = (case ra of Inl e \<Rightarrow> Inl e
          | Inr found_texts \<Rightarrow> report_of w (parse_html w h) found_texts url)"
    by (auto simp: check_for_patterns_def Let_def content_def terms_def report_of_def
        split: sum.splits if_splits)
  from assms(5) h m' have r': "s1' = sa'"
    "r' = (case ra' of Inl e \<Rightarrow> Inl e
          | Inr found_texts \<Rightarrow> report_of w' (parse_html w h) found_texts url)"
    by (auto simp: check_for_patterns_def Let_def content_def terms' same report_of_def
        split: sum.splits if_splits)
  from r r' eq report show ?thesis by (simp split: sum.splits)
qed

lemma check_single_url_lockstep:
  assumes "same_world_off x w w'" and "url \<noteq> x"
    and "found_items s' url = found_items s url" and "search_texts s' = search_texts s"
    and "check_single_url w s url = (s1, r)"
    and "check_single_url w' s' url = (s1', r')"
  shows "r' = r \<and> found_items s1' url = found_items s1 url"
proof (cases "truthy (fetch_page w url)")
  case False
  with assms show ?thesis
    by (simp add: check_single_url_def fetch_page_same [OF assms(1,2)])
next
  case True
  obtain sa ra where c: "check_for_patterns w s (fetch_page w url) url None = (sa, ra)"
    by (cases "check_for_patterns w s (fetch_page w url) url None")
  obtain sa' ra' where c': "check_for_patterns w' s' (fetch_page w url) url None = (sa', ra')"
    by (cases "check_for_patterns w' s' (fetch_page w url) url None")
  from check_for_patterns_lockstep [OF assms(1,3,4) c c']
  have eq: "ra' = ra" "found_items sa' url = found_items sa url" by auto
  from assms(5) True c have r: "s1 = sa"
    "r = (case ra of Inl e \<Rightarrow> Inl e
          | Inr (found, product_info) \<Rightarrow>
              (case product_info of None \<Rightarrow> Inr []
               | Some infos \<Rightarrow> if found \<and> infos \<noteq> [] then Inr infos else Inr []))"
    by (auto simp: check_single_url_def Let_def split: sum.splits option.splits if_splits)
  from assms(6) True c' have r': "s1' = sa'"
    "r' = (case ra' of Inl e \<Rightarrow> Inl e
          | Inr (found, product_info) \<Rightarrow>
              (case product_info of None \<Rightarrow> Inr []
               | Some infos \<Rightarrow> if found \<and> infos \<noteq> [] then Inr infos else Inr []))"
    by (auto simp: check_single_url_def Let_def fetch_page_same [OF assms(1,2)]
        split: sum.splits option.splits if_splits)
  from r r' eq show ?thesis by simp
qed

lemma worker_keeps_same_ledger:
  assumes "same_world_off x w w'" and "same_ledger_off x s s'"
    and "check_single_url w s url = (s1, r)"
    and "check_single_url w' s' url = (s1', r')"
  shows "same_ledger_off x s1 s1' \<and> (url \<noteq> x \<longrightarrow> r' = r)"
proof -
  have ws: "worker_step url s s1" "worker_step url s' s1'"
    using assms(3,4) by (auto dest: check_single_url_worker_step)
  then have fields: "urls s1 = urls s" "search_texts s1 = search_texts s"
    "notification_title s1 = notification_title s" "notification_sent s1 = notification_sent s"
    "urls s1' = urls s'" "search_texts s1' = search_texts s'"
    "notification_title s1' = notification_title s'" "notification_sent s1' = notification_sent s'"
    by (auto simp: worker_step_def advances_def)
  from ws have frame: "u \<noteq> url \<Longrightarrow> found_items s1 u = found_items s u"
    "u \<noteq> url \<Longrightarrow> found_items s1' u = found_items s' u" for u
    by (auto simp: worker_step_def)
  have here: "r' = r \<and> found_items s1' url = found_items s1 url" if "url \<noteq> x"
    using check_single_url_lockstep [OF assms(1) that _ _ assms(3,4)] assms(2) that
    by (simp add: same_ledger_off_def)
  have "found_items s1' u = found_items s1 u" if "u \<noteq> x" for u
  proof (cases "u = url")
    case True
    with that here show ?thesis by simp
  next
    case False
    with that assms(2) frame show ?thesis by (simp add: same_ledger_off_def)
  qed
  with assms(2) fields here show ?thesis
    by (simp add: same_ledger_off_def)
qed

lemma run_workers_lockstep:
  "same_world_off x w w' \<Longrightarrow> same_ledger_off x s s' \<Longrightarrow>
   run_workers w s us = (s1, rs) \<Longrightarrow> run_workers w' s' us = (s1', rs') \<Longrightarrow>
   same_ledger_off x s1 s1' \<and> same_results_off x rs rs'"
proof (induction us arbitrary: s s' s1 s1' rs rs')
  case Nil
  then show ?case by (simp add: same_results_off_def)
next
  case (Cons u us)
  obtain sa r where c: "check_single_url w s u = (sa, r)"
    by (cases "check_single_url w s u")
  obtain sa' r' where c': "check_single_url w' s' u = (sa', r')"
    by (cases "check_single_url w' s' u")
  obtain sb rsb where rw: "run_workers w sa us = (sb, rsb)"
    by (cases "run_workers w sa us")
  obtain sb' rsb' where rw': "run_workers w' sa' us = (sb', rsb')"
    by (cases "run_workers w' sa' us")
  from Cons.prems(3) c rw have eq: "s1 = sb" "rs = (u, r) # rsb" by auto
  from Cons.prems(4) c' rw' have eq': "s1' = sb'" "rs' = (u, r') # rsb'" by auto
  from worker_keeps_same_ledger [OF Cons.prems(1,2) c c']
  have step: "same_ledger_off x sa sa'" "u \<noteq> x \<longrightarrow> r' = r" by auto
  from Cons.IH [OF Cons.prems(1) step(1) rw rw'] step(2) show ?case
    unfolding eq eq' by (simp add: same_results_off_def)
qed

lemma notify_info_lockstep:
  assumes "pushover_post w' = pushover_post w" and "same_ledger_off x s s'"
    and "i_found_at i \<noteq> x"
  shows "(case (notify_info w s i, notify_info w' s' i) of
           (Inl e, Inl e') \<Rightarrow> True
         | (Inr s1, Inr s1') \<Rightarrow> same_ledger_off x s1 s1'
         | _ \<Rightarrow> False)"
proof -
  from assms(2,3) have ns: "notification_sent s' (i_found_at i) = notification_sent s (i_found_at i)"
    and title: "notification_title s' = notification_title s"
    by (auto simp: same_ledger_off_def)
  have send: "send_pushover_notification w' s' m t = send_pushover_notification w s m t" for m t
    by (simp add: send_pushover_notification_def assms(1) title)
  show ?thesis
    using assms(2)
    by (auto simp: notify_info_closed ns send same_ledger_off_def split: option.splits)
qed

lemma notify_infos_lockstep:
  "pushover_post w' = pushover_post w \<Longrightarrow> same_ledger_off x s s' \<Longrightarrow>
   \<forall>i \<in> set infos. i_found_at i \<noteq> x \<Longrightarrow>
   same_ledger_off x (notify_infos w s infos) (notify_infos w' s' infos)"
proof (induction infos arbitrary: s s')
  case Nil
  then show ?case by simp
next
  case (Cons i infos)
  from Cons.prems have here: "i_found_at i \<noteq> x" and rest: "\<forall>i \<in> set infos. i_found_at i \<noteq> x"
    by auto
  note step = notify_info_lockstep [OF Cons.prems(1,2) here]
  show ?case
  proof (cases "notify_info w s i")
    case (Inl e)
    with step obtain e' where "notify_info w' s' i = Inl e'"
      by (cases "notify_info w' s' i") auto
    with Inl Cons.prems(2) show ?thesis by simp
  next
    case (Inr s1)
    with step obtain s1' where r': "notify_info w' s' i = Inr s1'" and
      same: "same_ledger_off x s1 s1'"
      by (cases "notify_info w' s' i") auto
    from Cons.IH [OF Cons.prems(1) same rest] Inr r' show ?thesis by simp
  qed
qed

lemma notify_infos_at_target:
  assumes "\<forall>i \<in> set infos. i_found_at i = x"
  shows "same_ledger_off x s (notify_infos w s infos)"
proof -
  have "notify_step s (notify_infos w s infos)" by (rule notify_infos_step)
  then have fields: "urls (notify_infos w s infos) = urls s"
    "search_texts (notify_infos w s infos) = search_texts s"
    "notification_title (notify_infos w s infos) = notification_title s"
    "found_items (notify_infos w s infos) = found_items s"
    by (auto simp: notify_step_def advances_def)
  have "notification_sent (notify_infos w s infos) u = notification_sent s u" if "u \<noteq> x" for u
    using assms that by (intro notify_infos_frame) auto
  with fields show ?thesis by (simp add: same_ledger_off_def)
qed

lemma own_results_Cons: "own_results (p # rs) \<Longrightarrow> own_results rs"
  by (simp add: own_results_def)

lemma results_found_own: "results_found st rs \<Longrightarrow> own_results rs"
  by (simp add: results_found_def own_results_def)

text \<open>The state after the loop over one result.\<close>

lemma process_results_Cons:
  "process_results w st b ((u, r) # rs) =
     process_results w
       (case r of Inl e \<Rightarrow> st
        | Inr infos \<Rightarrow> if infos \<noteq> [] then notify_infos w st infos else st)
       (case r of Inl e \<Rightarrow> b | Inr infos \<Rightarrow> if infos \<noteq> [] then True else b) rs"
  by (simp split: sum.splits)

lemma one_result_lockstep:
  assumes "pushover_post w' = pushover_post w" and "same_ledger_off x s s'"
    and "u \<noteq> x \<longrightarrow> r' = r"
    and "\<forall>infos. r = Inr infos \<longrightarrow> (\<forall>i \<in> set infos. i_found_at i = u)"
    and "\<forall>infos. r' = Inr infos \<longrightarrow> (\<forall>i \<in> set infos. i_found_at i = u)"
  shows "same_ledger_off x
     (case r of Inl e \<Rightarrow> s | Inr infos \<Rightarrow> if infos \<noteq> [] then notify_infos w s infos else s)
     (case r' of Inl e \<Rightarrow> s' | Inr infos \<Rightarrow> if infos \<noteq> [] then notify_infos w' s' infos else s')"
proof (cases "u = x")
  case False
  with assms(3) have eq: "r' = r" by simp
  show ?thesis
  proof (cases r)
    case (Inl e)
    with eq assms(2) show ?thesis by simp
  next
    case (Inr infos)
    with assms(4) False have "\<forall>i \<in> set infos. i_found_at i \<noteq> x" by auto
    from notify_infos_lockstep [OF assms(1,2) this] Inr eq assms(2) show ?thesis by simp
  qed
next
  case True
  have left: "same_ledger_off x s
     (case r of Inl e \<Rightarrow> s | Inr infos \<Rightarrow> if infos \<noteq> [] then notify_infos w s infos else s)"
    using assms(4) True
    by (auto simp: same_ledger_off_refl intro: notify_infos_at_target split: sum.splits)
  have right: "same_ledger_off x s'
     (case r' of Inl e \<Rightarrow> s' | Inr infos \<Rightarrow> if infos \<noteq> [] then notify_infos w' s' infos else s')"
    using assms(5) True
    by (auto simp: same_ledger_off_refl intro: notify_infos_at_target split: sum.splits)
  from same_ledger_off_trans [OF same_ledger_off_sym [OF left] assms(2)] right
  show ?thesis by (rule same_ledger_off_trans)
qed

lemma process_results_lockstep:
  "pushover_post w' = pushover_post w \<Longrightarrow> same_results_off x rs rs' \<Longrightarrow>
   own_results rs \<Longrightarrow> own_results rs' \<Longrightarrow> same_ledger_off x s s' \<Longrightarrow>
   same_ledger_off x (fst (process_results w s b rs)) (fst (process_results w' s' b' rs'))"
proof (induction rs arbitrary: rs' s s' b b')
  case Nil
  then show ?case by (simp add: same_results_off_def)
next
  case (Cons p rs)
  obtain u r where p: "p = (u, r)" by (cases p)
  from Cons.prems(2)
  have "list_all2 (\<lambda>p p'. fst p' = fst p \<and> (fst p \<noteq> x \<longrightarrow> snd p' = snd p)) (p # rs) rs'"
    unfolding same_results_off_def .
  then obtain p' rest where rs': "rs' = p' # rest"
    and head: "fst p' = fst p" "fst p \<noteq> x \<longrightarrow> snd p' = snd p"
    and tail': "list_all2 (\<lambda>p p'. fst p' = fst p \<and> (fst p \<noteq> x \<longrightarrow> snd p' = snd p)) rs rest"
    unfolding list_all2_Cons1 by blast
  from tail' have tail: "same_results_off x rs rest"
    unfolding same_results_off_def .
  obtain r' where p': "p' = (u, r')" using head(1) p by (cases p') simp
  have own: "\<forall>infos. r = Inr infos \<longrightarrow> (\<forall>i \<in> set infos. i_found_at i = u)"
    using Cons.prems(3) p by (simp add: own_results_def)
  have own': "\<forall>infos. r' = Inr infos \<longrightarrow> (\<forall>i \<in> set infos. i_found_at i = u)"
    using Cons.prems(4) rs' p' by (simp add: own_results_def)
  have same: "u \<noteq> x \<longrightarrow> r' = r" using head(2) p p' by simp
  note step = one_result_lockstep [OF Cons.prems(1,5) same own own']
  have o: "own_results rs" using Cons.prems(3) by (rule own_results_Cons)
  have o': "own_results rest" using Cons.prems(4) unfolding rs' by (rule own_results_Cons)
  from Cons.IH [OF Cons.prems(1) tail o o' step] show ?case
    unfolding p rs' p' process_results_Cons .
qed

lemma run_check_lockstep:
  assumes "same_world_off x w w'"
  shows "same_ledger_off x (fst (run_check w st)) (fst (run_check w' st))"
proof -
  obtain s1 rs where rw: "run_workers w st (urls st) = (s1, rs)"
    by (cases "run_workers w st (urls st)")
  obtain s1' rs' where rw': "run_workers w' st (urls st) = (s1', rs')"
    by (cases "run_workers w' st (urls st)")
  from run_workers_lockstep [OF assms same_ledger_off_refl rw rw']
  have same: "same_ledger_off x s1 s1'" "same_results_off x rs rs'" by auto
  have own: "own_results rs" "own_results rs'"
    using run_workers_results [OF rw] run_workers_results [OF rw']
    by (auto intro: results_found_own)
  from assms have post: "pushover_post w' = pushover_post w"
    by (simp add: same_world_off_def)
  from process_results_lockstep [OF post same(2) own same(1)] show ?thesis
    by (simp add: run_check_state rw rw')
qed

lemma fetch_page_timeouts: "\<forall>n. http_get w url n = Timeout \<Longrightarrow> fetch_page w url = None"
  by (simp add: fetch_page_def fetch_attempts_timeouts)

lemma run_workers_failed_target:
  "\<not> truthy (fetch_page w x) \<Longrightarrow> run_workers w st us = (st1, rs) \<Longrightarrow>
   found_items st1 x = found_items st x \<and> (\<forall>infos. (x, Inr infos) \<in> set rs \<longrightarrow> infos = [])"
proof (induction us arbitrary: st st1 rs)
  case Nil
  then show ?case by simp
next
  case (Cons u us)
  obtain sa r where c: "check_single_url w st u = (sa, r)"
    by (cases "check_single_url w st u")
  obtain sb rsb where rw: "run_workers w sa us = (sb, rsb)"
    by (cases "run_workers w sa us")
  from Cons.prems(2) c rw have eq: "st1 = sb" "rs = (u, r) # rsb" by auto
  have here: "found_items sa x = found_items st x \<and> (u = x \<longrightarrow> r = Inr [])"
  proof (cases "u = x")
    case True
    with c check_single_url_no_content [OF Cons.prems(1), of st] show ?thesis by simp
  next
    case False
    with check_single_url_worker_step [OF c] show ?thesis by (simp add: worker_step_def)
  qed
  with Cons.IH [OF Cons.prems(1) rw] show ?case
    unfolding eq by auto
qed

lemma process_results_frame:
  "\<forall>u infos. (u, Inr infos) \<in> set rs \<longrightarrow> (\<forall>i \<in> set infos. i_found_at i \<noteq> x) \<Longrightarrow>
   notification_sent (fst (process_results w st b rs)) x = notification_sent st x"
proof (induction rs arbitrary: st b)
  case Nil
  show ?case by simp
next
  case (Cons p rs)
  obtain u r where p: "p = (u, r)" by (cases p)
  from Cons.prems have rest:
    "\<forall>u infos. (u, Inr infos) \<in> set rs \<longrightarrow> (\<forall>i \<in> set infos. i_found_at i \<noteq> x)"
    by simp
  have "notification_sent
      (case r of Inl e \<Rightarrow> st | Inr infos \<Rightarrow> if infos \<noteq> [] then notify_infos w st infos else st) x
      = notification_sent st x"
  proof (cases r)
    case (Inl e)
    then show ?thesis by simp
  next
    case (Inr infos)
    with Cons.prems p have "\<forall>i \<in> set infos. i_found_at i \<noteq> x" by simp
    from notify_infos_frame [OF this] Inr show ?thesis by simp
  qed
  with Cons.IH [OF rest] show ?case
    unfolding p process_results_Cons by simp
qed

lemma run_check_failed_target:
  assumes "\<not> truthy (fetch_page w x)"
  shows "found_items (fst (run_check w st)) x = found_items st x \<and>
     notification_sent (fst (run_check w st)) x = notification_sent st x"
proof -
  obtain s1 rs where rw: "run_workers w st (urls st) = (s1, rs)"
    by (cases "run_workers w st (urls st)")
  obtain s2 b where pr: "process_results w s1 False rs = (s2, b)"
    by (cases "process_results w s1 False rs")
  have rc: "fst (run_check w st) = s2"
    by (simp add: run_check_state rw pr)
  from run_workers_failed_target [OF assms rw]
  have f1: "found_items s1 x = found_items st x"
    and empty: "\<forall>infos. (x, Inr infos) \<in> set rs \<longrightarrow> infos = []"
    by auto
  have n1: "notification_sent s1 = notification_sent st"
    using run_workers_step [OF rw] by simp
  have f2: "found_items s2 = found_items s1"
    using process_results_step [OF pr] by (simp add: notify_step_def)
  have own: "own_results rs"
    using run_workers_results [OF rw] by (rule results_found_own)
  have "i_found_at i \<noteq> x" if "(u, Inr infos) \<in> set rs" and "i \<in> set infos" for u infos i
  proof
    assume "i_found_at i = x"
    moreover from own that have "i_found_at i = u" by (auto simp: own_results_def)
    ultimately have "u = x" by simp
    with that empty show False by auto
  qed
  then have "\<forall>u infos. (u, Inr infos) \<in> set rs \<longrightarrow> (\<forall>i \<in> set infos. i_found_at i \<noteq> x)"
    by blast
  from process_results_frame [OF this, of w s1 False] pr
  have "notification_sent s2 x = notification_sent s1 x" by simp
  with f1 f2 n1 show ?thesis
    unfolding rc by simp
qed

text \<open>
  C8. A target whose fetch gives no content is isolated. Its check returns no discovery
  and the monitor it was given; after the whole cycle both dictionaries hold for that URL
  what they held before; and for every other URL the result of its task and its entries
  in both dictionaries after the cycle are the same in every world that differs only in
  what the network answers at the failing URL.
\<close>

theorem target_failure_isolated:
  assumes "\<not> truthy (fetch_page w x)" and "same_world_off x w w'"
  shows "check_single_url w st x = (st, Inr []) \<and>
     found_items (fst (run_check w st)) x = found_items st x \<and>
     notification_sent (fst (run_check w st)) x = notification_sent st x \<and>
     same_results_off x (snd (run_workers w st (urls st))) (snd (run_workers w' st (urls st))) \<and>
     (\<forall>u. u \<noteq> x \<longrightarrow>
        found_items (fst (run_check w' st)) u = found_items (fst (run_check w st)) u \<and>
        notification_sent (fst (run_check w' st)) u = notification_sent (fst (run_check w st)) u)"
proof -
  obtain s1 rs where rw: "run_workers w st (urls st) = (s1, rs)"
    by (cases "run_workers w st (urls st)")
  obtain s1' rs' where rw': "run_workers w' st (urls st) = (s1', rs')"
    by (cases "run_workers w' st (urls st)")
  from run_workers_lockstep [OF assms(2) same_ledger_off_refl rw rw']
  have "same_results_off x (snd (run_workers w st (urls st))) (snd (run_workers w' st (urls st)))"
    by (simp add: rw rw')
  moreover from run_check_lockstep [OF assms(2), of st]
  have "\<forall>u. u \<noteq> x \<longrightarrow>
        found_items (fst (run_check w' st)) u = found_items (fst (run_check w st)) u \<and>
        notification_sent (fst (run_check w' st)) u = notification_sent (fst (run_check w st)) u"
    by (simp add: same_ledger_off_def)
  ultimately show ?thesis
    using check_single_url_no_content [OF assms(1), of st] run_check_failed_target [OF assms(1), of st]
    by blast
qed

lemma half_world_fields:
  "http_get half_world ''http://a'' n = Timeout"
  "u \<noteq> ''http://a'' \<Longrightarrow> http_get half_world u n = http_get (example_world 200) u n"
  "parse_html half_world = parse_html (example_world 200)"
  "urljoin half_world = urljoin (example_world 200)"
  "now half_world = now (example_world 200)"
  "pushover_post half_world = pushover_post (example_world 200)"
  by (simp_all add: half_world_def example_world_def)

theorem target_failure_isolated_witness:
  "fetch_page half_world ''http://a'' = None \<and>
   check_single_url half_world two_monitor ''http://a'' = (two_monitor, Inr []) \<and>
   found_time (fst (run_check half_world two_monitor)) ''http://a'' ''DJI'' = None \<and>
   found_items (fst (run_check (example_world 200) two_monitor)) ''http://b''
     = found_items (fst (run_check half_world two_monitor)) ''http://b''"
proof -
  have none: "fetch_page half_world ''http://a'' = None"
    by (rule fetch_page_timeouts) (simp add: half_world_fields)
  then have fails: "\<not> truthy (fetch_page half_world ''http://a'')" by simp
  have same: "same_world_off ''http://a'' half_world (example_world 200)"
    unfolding same_world_off_def by (simp add: half_world_fields)
  have b: "''http://b'' \<noteq> ''http://a''" by simp
  note t = target_failure_isolated [OF fails same, of two_monitor]
  from t have c1: "check_single_url half_world two_monitor ''http://a'' = (two_monitor, Inr [])"
    by (rule conjunct1)
  from t have c2: "found_items (fst (run_check half_world two_monitor)) ''http://a''
       = found_items two_monitor ''http://a''"
    by (rule conjunct1 [OF conjunct2])
  from t have "\<forall>u. u \<noteq> ''http://a'' \<longrightarrow>
        found_items (fst (run_check (example_world 200) two_monitor)) u
          = found_items (fst (run_check half_world two_monitor)) u \<and>
        notification_sent (fst (run_check (example_world 200) two_monitor)) u
          = notification_sent (fst (run_check half_world two_monitor)) u"
    by (rule conjunct2 [OF conjunct2 [OF conjunct2 [OF conjunct2]]])
  then have "''http://b'' \<noteq> ''http://a'' \<longrightarrow>
        found_items (fst (run_check (example_world 200) two_monitor)) ''http://b''
          = found_items (fst (run_check half_world two_monitor)) ''http://b'' \<and>
        notification_sent (fst (run_check (example_world 200) two_monitor)) ''http://b''
          = notification_sent (fst (run_check half_world two_monitor)) ''http://b''"
    by (rule spec)
  from mp [OF this b] have c3:
    "found_items (fst (run_check (example_world 200) two_monitor)) ''http://b''
       = found_items (fst (run_check half_world two_monitor)) ''http://b''"
    by (rule conjunct1)
  have "found_time (fst (run_check half_world two_monitor)) ''http://a'' ''DJI''
      = found_time two_monitor ''http://a'' ''DJI''"
    unfolding found_time_def c2 ..
  also have "\<dots> = None"
    unfolding two_monitor_def by (rule init_found_time)
  finally have c4: "found_time (fst (run_check half_world two_monitor)) ''http://a'' ''DJI'' = None" .
  from none c1 c4 c3 show ?thesis
    by (intro conjI)
qed

end
